theory Spec2Isabelle
  imports Complex_Main "HOL-Library.Word" "HOL-Library.Log_Nat"
begin

section \<open>JavaScript numbers and arrays\<close>

text \<open>
  A JavaScript number is modelled as a real or \<open>NaN\<close>: doubles and the 32-bit floats of a
  \<open>Float32Array\<close> are idealised as reals (no rounding, no infinities), and \<open>NaN\<close> is kept
  because the program itself can produce it (\<open>0 / 0\<close>, an \<open>undefined\<close> read stored in a
  typed array). Every comparison with \<open>NaN\<close> is false.
\<close>

datatype jsnum = Num real | NaN

text \<open>\<open>xs[i]\<close>: the element, or \<open>undefined\<close> (here \<open>None\<close>) outside the array.\<close>

definition js_index :: "'a list \<Rightarrow> nat \<Rightarrow> 'a option" where
  "js_index xs i = (if i < length xs then Some (xs ! i) else None)"

text \<open>Numeric coercion of a read: \<open>undefined\<close> becomes \<open>NaN\<close>.\<close>

fun to_number :: "jsnum option \<Rightarrow> jsnum" where
  "to_number None = NaN"
| "to_number (Some v) = v"

fun js_add :: "jsnum \<Rightarrow> jsnum \<Rightarrow> jsnum" where
  "js_add (Num a) (Num b) = Num (a + b)"
| "js_add _ _ = NaN"

text \<open>\<open>Math.min(a, v)\<close> and \<open>Math.max(a, v)\<close> for a proper number \<open>a\<close>.\<close>

fun js_min :: "real \<Rightarrow> jsnum \<Rightarrow> jsnum" where
  "js_min a (Num b) = Num (min a b)"
| "js_min a NaN = NaN"

fun js_max :: "real \<Rightarrow> jsnum \<Rightarrow> jsnum" where
  "js_max a (Num b) = Num (max a b)"
| "js_max a NaN = NaN"

text \<open>
  \<open>a / b\<close> for a proper number \<open>b\<close>. With \<open>b = 0\<close> the only dividend that occurs in the
  program is \<open>0\<close> (or \<open>NaN\<close>), and \<open>0 / 0\<close> is \<open>NaN\<close>.
\<close>

fun js_div :: "jsnum \<Rightarrow> real \<Rightarrow> jsnum" where
  "js_div (Num a) b = (if b = 0 then NaN else Num (a / b))"
| "js_div NaN b = NaN"

text \<open>
  A store \<open>arr[i] = v\<close> into a typed array: ignored outside the array, and \<open>undefined\<close> is
  stored as \<open>NaN\<close>.
\<close>

definition f32_set :: "jsnum list \<Rightarrow> nat \<Rightarrow> jsnum option \<Rightarrow> jsnum list" where
  "f32_set arr i v = (if i < length arr then arr[i := to_number v] else arr)"


section \<open>The network object\<close>

record activations_t =
  act_input :: "jsnum list"
  act_hidden :: "jsnum list"
  act_output :: "jsnum list"

text \<open>
  The state the methods of \<open>NeuralNetwork\<close> read and write: its own fields, the global
  \<open>window.nn\<close> (absent until the model bundle is loaded), and two ghost fields that record the
  effects on the environment: the arguments of every call of \<open>window.nn\<close>, in order, and the
  number of \<open>Math.random()\<close> draws so far. The \<open>k\<close>-th draw returns \<open>rnd k\<close> for a stream
  \<open>rnd\<close> that the functions take as a parameter.
\<close>

record network =
  isLoaded :: bool
  window_nn :: "(jsnum list \<Rightarrow> jsnum list) option"
  activations :: activations_t
  nn_calls :: "jsnum list list"
  random_draws :: nat

record result =
  prediction :: nat
  confidence :: real
  probabilities :: "jsnum list"
  result_activations :: activations_t
  isVerified :: bool

definition call_nn :: "(jsnum list \<Rightarrow> jsnum list) \<Rightarrow> jsnum list \<Rightarrow> network \<Rightarrow> jsnum list \<times> network" where
  "call_nn nn x w = (nn x, w\<lparr>nn_calls := nn_calls w @ [x]\<rparr>)"


section \<open>The class scan of predict and verify\<close>

text \<open>
  \<open>for (let i = 0; i < n; i++) if (output[i] > maxProb) { maxProb = output[i]; prediction = i; }\<close>
  with \<open>n = 10\<close> in \<open>predict\<close> and \<open>n = 100\<close> in \<open>verify\<close>. The state is
  \<open>(maxProb, prediction, reads)\<close>, where the ghost \<open>reads\<close> lists the indices at which
  \<open>output\<close> was read.
\<close>

fun argmax_step :: "jsnum list \<Rightarrow> real \<times> nat \<times> nat list \<Rightarrow> nat \<Rightarrow> real \<times> nat \<times> nat list" where
  "argmax_step outp (maxProb, pred, rd) i =
     (case to_number (js_index outp i) of
        Num v \<Rightarrow> if v > maxProb then (v, i, rd @ [i]) else (maxProb, pred, rd @ [i])
      | NaN \<Rightarrow> (maxProb, pred, rd @ [i]))"

definition argmax_scan :: "nat \<Rightarrow> jsnum list \<Rightarrow> real \<times> nat \<times> nat list" where
  "argmax_scan n outp = foldl (argmax_step outp) (0, 0, []) [0..<n]"


section \<open>predict\<close>

text \<open>
  \<^verbatim>\<open>predict(inputData)\<close> of \<open>NeuralNetwork\<close>. Without a loaded model it returns
  \<^verbatim>\<open>{ prediction: 0, confidence: 0, probabilities: new Array(10).fill(0.1), ... }\<close>.
  Otherwise it stores the input activations, calls \<^verbatim>\<open>window.nn(Array.from(inputData))\<close>,
  scans the classes 0 to 9, fills the 64 hidden activations with
  \<^verbatim>\<open>Math.random() * maxProb\<close>, stores the output activations and returns
  \<^verbatim>\<open>{ prediction, confidence: maxProb, probabilities: output, activations }\<close>. The field
  \<open>isVerified\<close> of the result is absent (here \<open>False\<close>) unless \<open>verify\<close> sets it.
\<close>

definition predict :: "(nat \<Rightarrow> real) \<Rightarrow> jsnum list \<Rightarrow> network \<Rightarrow> result \<times> network" where
  "predict rnd inputData w =
     (case (if isLoaded w then window_nn w else None) of
        None \<Rightarrow>
          (\<lparr>prediction = 0, confidence = 0, probabilities = replicate 10 (Num (1 / 10)),
            result_activations = activations w, isVerified = False\<rparr>, w)
      | Some nn \<Rightarrow>
          (let (outp, w1) = call_nn nn inputData w;
               (maxProb, pred, rd) = argmax_scan 10 outp;
               hidden = map (\<lambda>i. Num (rnd (random_draws w1 + i) * maxProb)) [0..<64];
               acts = \<lparr>act_input = inputData, act_hidden = hidden, act_output = outp\<rparr>;
               w2 = w1\<lparr>activations := acts, random_draws := random_draws w1 + 64\<rparr>
           in (\<lparr>prediction = pred, confidence = maxProb, probabilities = outp,
                result_activations = acts, isVerified = False\<rparr>, w2)))"


section \<open>augmentInput\<close>

text \<open>
  The helper \<^verbatim>\<open>shift(dx, dy)\<close>: a fresh \<^verbatim>\<open>Float32Array(inputData.length)\<close> of zeros, and for
  \<open>y\<close> and \<open>x\<close> from 0 to 27, with \<^verbatim>\<open>newX = x + dx\<close> and \<^verbatim>\<open>newY = y + dy\<close>,
  \<^verbatim>\<open>shifted[y * size + x] = inputData[newY * size + newX]\<close> when both are in \<open>[0, 28)\<close>.
  \<open>shift_px\<close> is the body of the inner loop, \<open>shift_row\<close> the body of the outer one. A read
  outside \<open>inputData\<close> stores \<open>NaN\<close>, a store outside \<open>shifted\<close> is dropped.
\<close>

definition shift_px :: "int \<Rightarrow> int \<Rightarrow> jsnum list \<Rightarrow> nat \<Rightarrow> jsnum list \<Rightarrow> nat \<Rightarrow> jsnum list" where
  "shift_px dx dy inputData y shifted x =
     (let newX = int x + dx; newY = int y + dy
      in if newX \<ge> 0 \<and> newX < 28 \<and> newY \<ge> 0 \<and> newY < 28
         then f32_set shifted (y * 28 + x) (js_index inputData (nat (newY * 28 + newX)))
         else shifted)"

definition shift_row :: "int \<Rightarrow> int \<Rightarrow> jsnum list \<Rightarrow> jsnum list \<Rightarrow> nat \<Rightarrow> jsnum list" where
  "shift_row dx dy inputData shifted y = foldl (shift_px dx dy inputData y) shifted [0..<28]"

definition shift :: "int \<Rightarrow> int \<Rightarrow> jsnum list \<Rightarrow> jsnum list" where
  "shift dx dy inputData =
     foldl (shift_row dx dy inputData) (replicate (length inputData) (Num 0)) [0..<28]"

text \<open>
  For the statements about \<open>shift\<close>: whether the source pixel of \<open>(x, y)\<close> lies in the grid,
  and the value read there.
\<close>

definition in_grid :: "int \<Rightarrow> int \<Rightarrow> nat \<Rightarrow> nat \<Rightarrow> bool" where
  "in_grid dx dy x y \<longleftrightarrow> 0 \<le> int x + dx \<and> int x + dx < 28 \<and> 0 \<le> int y + dy \<and> int y + dy < 28"

definition src_val :: "int \<Rightarrow> int \<Rightarrow> jsnum list \<Rightarrow> nat \<Rightarrow> nat \<Rightarrow> jsnum" where
  "src_val dx dy inputData x y =
     to_number (js_index inputData (nat ((int y + dy) * 28 + (int x + dx))))"

text \<open>The value of the noisy copy at index \<open>i\<close> before it is clamped, for the draw \<open>r\<close>.\<close>

definition noise_val :: "jsnum list \<Rightarrow> nat \<Rightarrow> real \<Rightarrow> jsnum" where
  "noise_val inputData i r = js_add (to_number (js_index inputData i)) (Num (r * (2 / 10) - 1 / 10))"

definition clamp01 :: "jsnum \<Rightarrow> jsnum" where
  "clamp01 val = js_max 0 (js_min 1 val)"

text \<open>
  \<open>augmentInput\<close> pushes the input itself, then \<^verbatim>\<open>shift(dx, dy)\<close> for \<open>dy\<close> from -1 to 1 and,
  inside, \<open>dx\<close> from -1 to 1, skipping \<open>(0, 0)\<close>, then the noisy copy with
  \<^verbatim>\<open>noisy[i] = Math.max(0, Math.min(1, inputData[i] + (Math.random() * 0.2 - 0.1)))\<close>,
  one draw per element in index order.
\<close>

definition augmentInput :: "(nat \<Rightarrow> real) \<Rightarrow> jsnum list \<Rightarrow> network \<Rightarrow> jsnum list list \<times> network" where
  "augmentInput rnd inputData w =
     (let shifts = concat (map (\<lambda>dy. concat (map (\<lambda>dx.
                     if dx = 0 \<and> dy = 0 then [] else [shift dx dy inputData]) [-1, 0, 1])) [-1, 0, 1]);
          noisy = map (\<lambda>i. clamp01 (noise_val inputData i (rnd (random_draws w + i))))
                    [0..<length inputData]
      in ([inputData] @ shifts @ [noisy],
          w\<lparr>random_draws := random_draws w + length inputData\<rparr>))"


section \<open>verify\<close>

text \<open>
  The body of \<^verbatim>\<open>variations.forEach\<close>: when \<open>window.nn\<close> is there, one call of it, the class
  scan over 0 to 99 and \<^verbatim>\<open>votes[prediction]++\<close>. The scan returns a class below 100 and
  \<open>votes\<close> has 100 slots, so the increment is always inside the array.
\<close>

definition cast_vote :: "nat list \<times> network \<Rightarrow> jsnum list \<Rightarrow> nat list \<times> network" where
  "cast_vote s data =
     (case s of (votes, w) \<Rightarrow>
        (case window_nn w of
           None \<Rightarrow> (votes, w)
         | Some nn \<Rightarrow>
             (let (outp, w1) = call_nn nn data w;
                  (maxProb, pred, rd) = argmax_scan 100 outp
              in (votes[pred := votes ! pred + 1], w1))))"

definition cast_votes :: "jsnum list list \<Rightarrow> network \<Rightarrow> nat list \<times> network" where
  "cast_votes variations w = foldl cast_vote (replicate 100 0, w) variations"

text \<open>
  \<open>for (let i = 0; i < 100; i++) if (votes[i] > maxVotes) { maxVotes = votes[i]; winner = i; }\<close>
  on the state \<open>(winner, maxVotes)\<close>.
\<close>

fun winner_step :: "nat list \<Rightarrow> nat \<times> nat \<Rightarrow> nat \<Rightarrow> nat \<times> nat" where
  "winner_step votes (winner, maxVotes) i =
     (case js_index votes i of
        Some v \<Rightarrow> if v > maxVotes then (i, v) else (winner, maxVotes)
      | None \<Rightarrow> (winner, maxVotes))"

definition find_winner :: "nat list \<Rightarrow> nat \<times> nat" where
  "find_winner votes = foldl (winner_step votes) (0, 0) [0..<100]"

text \<open>
  \<open>verify\<close>: the ensemble, the votes on \<^verbatim>\<open>new Array(100).fill(0)\<close>, the winner, then one
  \<^verbatim>\<open>this.predict(inputData)\<close> whose result is returned with \<open>prediction\<close> replaced by the
  winner, \<open>confidence\<close> by \<^verbatim>\<open>maxVotes / variations.length\<close>, and \<open>isVerified\<close> set.
\<close>

definition verify :: "(nat \<Rightarrow> real) \<Rightarrow> jsnum list \<Rightarrow> network \<Rightarrow> result \<times> network" where
  "verify rnd inputData w =
     (let (variations, w1) = augmentInput rnd inputData w;
          (votes, w2) = cast_votes variations w1;
          (winner, maxVotes) = find_winner votes;
          (finalResult, w3) = predict rnd inputData w2
      in (finalResult\<lparr>prediction := winner,
                       confidence := real maxVotes / real (length variations),
                       isVerified := True\<rparr>, w3))"

text \<open>The vote tally of a \<open>verify\<close> call, as it stands when the winner is looked for.\<close>

definition tally :: "(nat \<Rightarrow> real) \<Rightarrow> jsnum list \<Rightarrow> network \<Rightarrow> nat list" where
  "tally rnd inputData w =
     (let (variations, w1) = augmentInput rnd inputData w in fst (cast_votes variations w1))"



section \<open>getImageData\<close>

text \<open>
  The downsampling of the canvas: \<open>canvasSize\<close> and \<open>gridSize\<close> are fields of the application
  object (280 and 28 as shipped), \<open>data\<close> is the RGBA buffer of the canvas, four bytes per
  pixel. \<open>cell_px\<close>, \<open>cell_row\<close> and \<open>cell_sum\<close> are the two inner loops over the pixels of
  a cell, \<open>getImageData_px\<close> and \<open>getImageData_row\<close> the bodies of the two loops over cells.

  The cell bounds are \<^verbatim>\<open>Math.floor(x * cellSize)\<close> with \<^verbatim>\<open>cellSize = canvasSize / gridSize\<close>,
  computed in doubles: the quotient is rounded, and so is each product before its floor,
  which can move a bound by one pixel. The rounding of a real to the nearest double is the
  parameter \<open>fl\<close>, to be taken as \<open>round_double\<close> below. For the averages themselves (sum, count, the two divisions) the numbers
  stay idealised as reals.
\<close>

text \<open>A byte read from the pixel buffer, as a number; \<open>undefined\<close> becomes \<open>NaN\<close> in the sum.\<close>

fun byte_number :: "8 word option \<Rightarrow> jsnum" where
  "byte_number None = NaN"
| "byte_number (Some b) = Num (real (unat b))"

definition cell_px :: "nat \<Rightarrow> 8 word list \<Rightarrow> nat \<Rightarrow> jsnum \<times> nat \<Rightarrow> nat \<Rightarrow> jsnum \<times> nat" where
  "cell_px canvasSize data py s px =
     (case s of (sumv, count) \<Rightarrow>
        (let idx = (py * canvasSize + px) * 4
         in (js_add sumv (byte_number (js_index data idx)), count + 1)))"

definition cell_row :: "nat \<Rightarrow> 8 word list \<Rightarrow> nat \<Rightarrow> nat \<Rightarrow> jsnum \<times> nat \<Rightarrow> nat \<Rightarrow> jsnum \<times> nat" where
  "cell_row canvasSize data startX endX s py = foldl (cell_px canvasSize data py) s [startX..<endX]"

definition cell_sum :: "nat \<Rightarrow> 8 word list \<Rightarrow> nat \<Rightarrow> nat \<Rightarrow> nat \<Rightarrow> nat \<Rightarrow> jsnum \<times> nat" where
  "cell_sum canvasSize data startX startY endX endY =
     foldl (cell_row canvasSize data startX endX) (Num 0, 0) [startY..<endY]"

definition cell_value :: "(real \<Rightarrow> real) \<Rightarrow> nat \<Rightarrow> nat \<Rightarrow> 8 word list \<Rightarrow> nat \<Rightarrow> nat \<Rightarrow> jsnum" where
  "cell_value fl canvasSize gridSize data x y =
     (let cellSize = fl (real canvasSize / real gridSize);
          startX = nat \<lfloor>fl (real x * cellSize)\<rfloor>;
          startY = nat \<lfloor>fl (real y * cellSize)\<rfloor>;
          endX = nat \<lfloor>fl (real (x + 1) * cellSize)\<rfloor>;
          endY = nat \<lfloor>fl (real (y + 1) * cellSize)\<rfloor>;
          (sumv, count) = cell_sum canvasSize data startX startY endX endY
      in js_div (js_div sumv (real count)) 255)"

definition getImageData_px ::
  "(real \<Rightarrow> real) \<Rightarrow> nat \<Rightarrow> nat \<Rightarrow> 8 word list \<Rightarrow> nat \<Rightarrow> jsnum list \<Rightarrow> nat \<Rightarrow> jsnum list" where
  "getImageData_px fl canvasSize gridSize data y result x =
     f32_set result (y * gridSize + x) (Some (cell_value fl canvasSize gridSize data x y))"

definition getImageData_row ::
  "(real \<Rightarrow> real) \<Rightarrow> nat \<Rightarrow> nat \<Rightarrow> 8 word list \<Rightarrow> jsnum list \<Rightarrow> nat \<Rightarrow> jsnum list" where
  "getImageData_row fl canvasSize gridSize data result y =
     foldl (getImageData_px fl canvasSize gridSize data y) result [0..<gridSize]"

definition getImageData :: "(real \<Rightarrow> real) \<Rightarrow> nat \<Rightarrow> nat \<Rightarrow> 8 word list \<Rightarrow> jsnum list" where
  "getImageData fl canvasSize gridSize data =
     foldl (getImageData_row fl canvasSize gridSize data)
       (replicate (gridSize * gridSize) (Num 0)) [0..<gridSize]"

text \<open>
  The rounding of a real to the nearest double (IEEE 754 binary64, ties to even), without
  the overflow to infinity: \<open>round_even\<close> rounds to the nearest integer, ties to the even
  one. Scaled by \<open>2 ^ 1074\<close>, the doubles are integers, the subnormal ones below \<open>2 ^ 52\<close>
  and the others with 53 significant bits, so that the spacing around a scaled value \<open>y\<close> is
  \<open>ulp_scaled y\<close>: 1 below \<open>2 ^ 53\<close>, and the power of two that leaves 53 bits above.
\<close>

definition round_even :: "real \<Rightarrow> int" where
  "round_even r =
     (let f = \<lfloor>r\<rfloor>; d = r - of_int f
      in if d < 1 / 2 then f else if 1 / 2 < d then f + 1 else if even f then f else f + 1)"

definition subnormal_exp :: nat where
  "subnormal_exp = 1074"

definition ulp_scaled :: "real \<Rightarrow> int" where
  "ulp_scaled y = 2 ^ nat (bitlen \<lfloor>y\<rfloor> - 53)"

definition round_scaled :: "real \<Rightarrow> real" where
  "round_scaled y = of_int (round_even (y / of_int (ulp_scaled y)) * ulp_scaled y)"

definition round_double :: "real \<Rightarrow> real" where
  "round_double x = sgn x * round_scaled (\<bar>x\<bar> * 2 ^ subnormal_exp) / 2 ^ subnormal_exp"

text \<open>
  What the statements about \<open>getImageData\<close> use of the rounding: on the non-negative reals
  it is monotone, it leaves the integers up to \<open>2 ^ 53\<close> as they are, and on
  \<open>[2 ^ -10, 2 ^ 53]\<close>, well inside the normal range, its relative error is at most
  \<open>2 ^ -53\<close>, half a unit in the last place. \<open>round_double\<close> has these properties.
\<close>

definition double_rounding :: "(real \<Rightarrow> real) \<Rightarrow> bool" where
  "double_rounding fl \<longleftrightarrow>
     (\<forall>x y. 0 \<le> x \<and> x \<le> y \<longrightarrow> fl x \<le> fl y) \<and>
     (\<forall>n::nat. n \<le> 2 ^ 53 \<longrightarrow> fl (real n) = real n) \<and>
     (\<forall>x. 1 / 2 ^ 10 \<le> x \<and> x \<le> 2 ^ 53 \<longrightarrow> \<bar>fl x - x\<bar> \<le> x / 2 ^ 53)"

text \<open>
  The red byte of the pixel \<open>(px, py)\<close>, and the bounds of the cells as the code computes
  them: \<open>cell_bound\<close> of \<open>x\<close> is the first coordinate of cell \<open>x\<close>, and \<open>cell_bound\<close> of
  \<open>x + 1\<close> is one past its last.
\<close>

definition red :: "nat \<Rightarrow> 8 word list \<Rightarrow> nat \<Rightarrow> nat \<Rightarrow> real" where
  "red canvasSize data px py = real (unat (data ! ((py * canvasSize + px) * 4)))"

definition cell_bound :: "(real \<Rightarrow> real) \<Rightarrow> nat \<Rightarrow> nat \<Rightarrow> nat \<Rightarrow> nat" where
  "cell_bound fl canvasSize gridSize x = nat \<lfloor>fl (real x * fl (real canvasSize / real gridSize))\<rfloor>"


section \<open>The class scan\<close>

lemma argmax_step_reads: "snd (snd (argmax_step outp s i)) = snd (snd s) @ [i]"
  by (cases s) (auto split: jsnum.splits)

lemma argmax_reads:
  "snd (snd (foldl (argmax_step outp) s [0..<n])) = snd (snd s) @ [0..<n]"
  by (induction n) (auto simp: argmax_step_reads)

lemma argmax_inv:
  "foldl (argmax_step outp) (0, 0, []) [0..<n] = (m, p, rd) \<Longrightarrow>
     0 \<le> m \<and> (\<forall>k<n. k < length outp \<longrightarrow> (\<forall>v. outp ! k = Num v \<longrightarrow> v \<le> m)) \<and>
     ((m = 0 \<and> p = 0) \<or>
      (p < n \<and> p < length outp \<and> outp ! p = Num m \<and> 0 < m \<and>
       (\<forall>k<p. \<forall>v. outp ! k = Num v \<longrightarrow> v < m)))"
proof (induction n arbitrary: m p rd)
  case 0
  then show ?case by simp
next
  case (Suc n)
  obtain m0 p0 rd0 where st: "foldl (argmax_step outp) (0, 0, []) [0..<n] = (m0, p0, rd0)"
    by (cases "foldl (argmax_step outp) (0, 0, []) [0..<n]") auto
  note ih = Suc.IH [OF st]
  from Suc.prems st have step: "argmax_step outp (m0, p0, rd0) n = (m, p, rd)"
    by simp
  show ?case
  proof (cases "n < length outp \<and> (\<exists>v. outp ! n = Num v \<and> v > m0)")
    case True
    then obtain v where v: "outp ! n = Num v" "v > m0" "n < length outp" by blast
    with step have eq: "m = v" "p = n"
      by (auto simp: js_index_def)
    show ?thesis unfolding eq using ih v
      by (auto simp: less_Suc_eq)
  next
    case False
    with step have eq: "m = m0" "p = p0"
      by (auto simp: js_index_def split: jsnum.splits if_splits)
    show ?thesis unfolding eq using ih False
      by (auto simp: less_Suc_eq)
  qed
qed


section \<open>The vote tally\<close>

lemma winner_inv:
  "n \<le> length votes \<Longrightarrow> foldl (winner_step votes) (0, 0) [0..<n] = (w, m) \<Longrightarrow>
     (\<forall>k<n. votes ! k \<le> m) \<and>
     ((m = 0 \<and> w = 0) \<or> (w < n \<and> votes ! w = m \<and> 0 < m \<and> (\<forall>k<w. votes ! k < m)))"
proof (induction n arbitrary: w m)
  case 0
  then show ?case by simp
next
  case (Suc n)
  obtain w0 m0 where st: "foldl (winner_step votes) (0, 0) [0..<n] = (w0, m0)"
    by (cases "foldl (winner_step votes) (0, 0) [0..<n]") auto
  from Suc.prems have n: "n \<le> length votes" "n < length votes" by simp_all
  note ih = Suc.IH [OF n(1) st]
  from Suc.prems st have step: "winner_step votes (w0, m0) n = (w, m)"
    by simp
  show ?case
  proof (cases "votes ! n > m0")
    case True
    with step n have eq: "m = votes ! n" "w = n"
      by (auto simp: js_index_def)
    show ?thesis unfolding eq using ih True
      by (auto simp: less_Suc_eq)
  next
    case False
    with step n have eq: "m = m0" "w = w0"
      by (auto simp: js_index_def)
    show ?thesis unfolding eq using ih False
      by (auto simp: less_Suc_eq)
  qed
qed

lemma find_winner_props:
  assumes "length votes = 100" and "find_winner votes = (w, m)"
  shows "w < 100" and "votes ! w = m" and "\<forall>k<100. votes ! k \<le> m" and "\<forall>k<w. votes ! k < m"
proof -
  have inv: "(\<forall>k<100. votes ! k \<le> m) \<and>
     ((m = 0 \<and> w = 0) \<or> (w < 100 \<and> votes ! w = m \<and> 0 < m \<and> (\<forall>k<w. votes ! k < m)))"
    using winner_inv [of 100 votes w m] assms by (simp add: find_winner_def)
  then show "w < 100" by auto
  from inv show "\<forall>k<100. votes ! k \<le> m" by simp
  from inv have "votes ! 0 \<le> m" by simp
  with inv show "votes ! w = m" by auto
  from inv show "\<forall>k<w. votes ! k < m" by auto
qed

lemma argmax_scan_pred_bound:
  assumes "argmax_scan n outp = (m, p, rd)"
  shows "p = 0 \<or> (p < n \<and> p < length outp)"
  using argmax_inv [of outp n m p rd] assms by (auto simp: argmax_scan_def)

lemma cast_vote_length: "length (fst (cast_vote (votes, w) data)) = length votes"
  by (auto simp: cast_vote_def call_nn_def split: option.splits prod.splits)

lemma cast_vote_sum: "sum_list (fst (cast_vote (votes, w) data)) \<le> sum_list votes + 1"
proof (cases "window_nn w")
  case None
  then show ?thesis by (simp add: cast_vote_def)
next
  case (Some nn)
  obtain m p rd where sc: "argmax_scan 100 (nn data) = (m, p, rd)"
    by (cases "argmax_scan 100 (nn data)") auto
  show ?thesis
  proof (cases "p < length votes")
    case True
    then show ?thesis using Some sc
      by (simp add: cast_vote_def call_nn_def sum_list_update)
  next
    case False
    then show ?thesis using Some sc
      by (simp add: cast_vote_def call_nn_def list_update_beyond)
  qed
qed

lemma cast_vote_network:
  "snd (cast_vote (votes, w) data) =
     (if window_nn w = None then w else w\<lparr>nn_calls := nn_calls w @ [data]\<rparr>)"
  by (auto simp: cast_vote_def call_nn_def split: option.splits prod.splits)

lemma cast_vote_high:
  assumes "\<And>nn x. window_nn w = Some nn \<Longrightarrow> length (nn x) = 10" and "10 \<le> k"
  shows "fst (cast_vote (votes, w) data) ! k = votes ! k"
proof (cases "window_nn w")
  case None
  then show ?thesis by (simp add: cast_vote_def)
next
  case (Some nn)
  obtain m p rd where sc: "argmax_scan 100 (nn data) = (m, p, rd)"
    by (cases "argmax_scan 100 (nn data)") auto
  from argmax_scan_pred_bound [OF sc] assms(1) [OF Some, of data] have "p < 10" by auto
  with assms(2) show ?thesis using Some sc
    by (simp add: cast_vote_def call_nn_def)
qed

lemma foldl_cast_vote:
  "length (fst (foldl cast_vote (votes, w) vs)) = length votes \<and>
   sum_list (fst (foldl cast_vote (votes, w) vs)) \<le> sum_list votes + length vs \<and>
   snd (foldl cast_vote (votes, w) vs) =
     (if window_nn w = None then w else w\<lparr>nn_calls := nn_calls w @ vs\<rparr>)"
proof (induction vs rule: rev_induct)
  case Nil
  then show ?case by simp
next
  case (snoc v vs)
  obtain votes' w' where st: "foldl cast_vote (votes, w) vs = (votes', w')"
    by (cases "foldl cast_vote (votes, w) vs") auto
  with snoc have ih: "length votes' = length votes" "sum_list votes' \<le> sum_list votes + length vs"
    "w' = (if window_nn w = None then w else w\<lparr>nn_calls := nn_calls w @ vs\<rparr>)"
    by simp_all
  have "sum_list (fst (cast_vote (votes', w') v)) \<le> sum_list votes' + 1"
    by (rule cast_vote_sum)
  with ih show ?case
    by (simp add: st cast_vote_length cast_vote_network)
qed

lemma foldl_cast_vote_high:
  assumes "\<And>nn x. window_nn w = Some nn \<Longrightarrow> length (nn x) = 10" and "10 \<le> k"
  shows "fst (foldl cast_vote (votes, w) vs) ! k = votes ! k"
proof (induction vs rule: rev_induct)
  case Nil
  then show ?case by simp
next
  case (snoc v vs)
  obtain votes' w' where st: "foldl cast_vote (votes, w) vs = (votes', w')"
    by (cases "foldl cast_vote (votes, w) vs") auto
  have "window_nn w' = window_nn w"
    using foldl_cast_vote [of votes w vs] st by (auto split: if_splits)
  with assms(1) have len: "\<And>nn x. window_nn w' = Some nn \<Longrightarrow> length (nn x) = 10" by simp
  have "fst (cast_vote (votes', w') v) ! k = votes' ! k"
    using len assms(2) by (rule cast_vote_high)
  with snoc st show ?case by simp
qed

lemma augmentInput_length: "length (fst (augmentInput rnd inputData w)) = 10"
  by (simp add: augmentInput_def)

lemma augmentInput_network:
  "snd (augmentInput rnd inputData w) = w\<lparr>random_draws := random_draws w + length inputData\<rparr>"
  by (simp add: augmentInput_def)

lemma tally_length: "length (tally rnd inputData w) = 100"
  by (simp add: tally_def cast_votes_def case_prod_beta foldl_cast_vote)

lemma tally_sum: "sum_list (tally rnd inputData w) \<le> 10"
  using foldl_cast_vote [of "replicate 100 0" "snd (augmentInput rnd inputData w)"
      "fst (augmentInput rnd inputData w)"]
  by (simp add: tally_def cast_votes_def case_prod_beta augmentInput_length sum_list_replicate)

lemma verify_prediction:
  "prediction (fst (verify rnd inputData w)) = fst (find_winner (tally rnd inputData w))"
  by (simp add: verify_def tally_def case_prod_beta)

lemma verify_confidence:
  "confidence (fst (verify rnd inputData w)) = real (snd (find_winner (tally rnd inputData w))) / 10"
  by (simp add: verify_def tally_def case_prod_beta augmentInput_length)


section \<open>Lowest-index ties and the range of the winning class\<close>

lemma argmax_lowest:
  assumes len: "length rs = 10" and n: "10 \<le> n" and nonneg: "\<forall>r\<in>set rs. 0 \<le> r"
    and i: "i < 10" and mx: "\<forall>k<10. rs ! k \<le> rs ! i" and first: "\<forall>k<i. rs ! k < rs ! i"
  shows "fst (snd (argmax_scan n (map Num rs))) = i"
proof -
  obtain m p rd where sc: "foldl (argmax_step (map Num rs)) (0, 0, []) [0..<n] = (m, p, rd)"
    by (cases "foldl (argmax_step (map Num rs)) (0, 0, []) [0..<n]") auto
  from argmax_inv [OF sc] len n
  have le: "\<forall>k<10. rs ! k \<le> m"
    and alt: "(m = 0 \<and> p = 0) \<or> (p < 10 \<and> rs ! p = m \<and> (\<forall>k<p. rs ! k < m))"
    by auto
  have pos: "\<forall>k<10. 0 \<le> rs ! k" using nonneg len by simp
  from alt have "p = i"
  proof
    assume z: "m = 0 \<and> p = 0"
    with le i pos have "rs ! i = 0" by force
    with first pos i have "i = 0"
      by (metis less_le_trans not_less zero_less_iff_neq_zero order.strict_trans)
    with z show ?thesis by simp
  next
    assume c: "p < 10 \<and> rs ! p = m \<and> (\<forall>k<p. rs ! k < m)"
    with mx le i have "rs ! i = m" by force
    with c first show ?thesis
      by (metis less_irrefl nat_neq_iff)
  qed
  with sc show ?thesis by (simp add: argmax_scan_def)
qed

lemma find_winner_lowest:
  assumes len: "length votes = 100" and i: "i < 100"
    and mx: "\<forall>k<100. votes ! k \<le> votes ! i" and first: "\<forall>k<i. votes ! k < votes ! i"
  shows "fst (find_winner votes) = i"
proof -
  obtain w m where fw: "find_winner votes = (w, m)"
    by (cases "find_winner votes") auto
  note p = find_winner_props [OF len fw]
  from p(1,2,3) mx i have "votes ! i = m" by force
  with p(2,4) first have "w = i"
    by (metis less_irrefl nat_neq_iff)
  with fw show ?thesis by simp
qed

text \<open>
  C5: ties go to the lowest index. For a distribution \<open>rs\<close> of ten non-negative scores whose
  maximum is reached at \<open>i\<close> and again at a later index \<open>j\<close>, and at no index before
  \<open>i\<close>, the class scan of \<open>verify\<close> (and that of \<open>predict\<close>) returns \<open>i\<close>. The scan of
  the vote tally follows the same rule: with the maximal count at \<open>a\<close> and at a later
  \<open>b\<close>, and at no index before \<open>a\<close>, the winner is \<open>a\<close>; that scan is what \<open>verify\<close>
  returns as its prediction. A distribution of ten zeros gives class 0.
\<close>

theorem argmax_tie_break:
  assumes "length rs = 10" and "\<forall>r\<in>set rs. 0 \<le> r"
    and "i < j" and "j < 10" and "rs ! i = rs ! j"
    and "\<forall>k<10. rs ! k \<le> rs ! i" and "\<forall>k<i. rs ! k < rs ! i"
    and "length votes = 100"
    and "a < b" and "b < 100" and "votes ! a = votes ! b"
    and "\<forall>k<100. votes ! k \<le> votes ! a" and "\<forall>k<a. votes ! k < votes ! a"
  shows "fst (snd (argmax_scan 100 (map Num rs))) = i \<and>
         fst (snd (argmax_scan 10 (map Num rs))) = i \<and>
         fst (find_winner votes) = a \<and>
         prediction (fst (verify rnd inputData w)) = fst (find_winner (tally rnd inputData w)) \<and>
         fst (snd (argmax_scan 100 (replicate 10 (Num 0)))) = 0"
proof -
  from assms have i: "i < 10" and a: "a < 100" by simp_all
  have 1: "fst (snd (argmax_scan 100 (map Num rs))) = i"
    using assms(1) _ assms(2) i assms(6,7) by (rule argmax_lowest) simp
  have 2: "fst (snd (argmax_scan 10 (map Num rs))) = i"
    using assms(1) _ assms(2) i assms(6,7) by (rule argmax_lowest) simp
  have 3: "fst (find_winner votes) = a"
    using assms(8) a assms(12,13) by (rule find_winner_lowest)
  have "fst (snd (argmax_scan 100 (map Num (replicate 10 0)))) = 0"
    by (rule argmax_lowest) simp_all
  then have 5: "fst (snd (argmax_scan 100 (replicate 10 (Num 0)))) = 0" by simp
  from 1 2 3 5 show ?thesis by (simp add: verify_prediction)
qed

theorem argmax_tie_break_witness:
  "length ((replicate 10 0)[1 := 3, 2 := 3::real]) = 10 \<and>
   (1::nat) < 2 \<and> (2::nat) < 10 \<and>
   (replicate 10 0)[1 := 3, 2 := 3::real] ! 1 = (replicate 10 0)[1 := 3, 2 := 3::real] ! 2 \<and>
   length ((replicate 100 0)[4 := 5, 7 := 5::nat]) = 100 \<and>
   (4::nat) < 7 \<and> (7::nat) < 100 \<and>
   (replicate 100 0)[4 := 5, 7 := 5::nat] ! 4 = (replicate 100 0)[4 := 5, 7 := 5::nat] ! 7 \<and>
   fst (snd (argmax_scan 100 (map Num ((replicate 10 0)[1 := 3, 2 := 3])))) = 1 \<and>
   fst (snd (argmax_scan 10 (map Num ((replicate 10 0)[1 := 3, 2 := 3])))) = 1 \<and>
   fst (find_winner ((replicate 100 0)[4 := 5, 7 := 5])) = 4"
proof -
  let ?rs = "(replicate 10 0)[1 := 3, 2 := 3::real]"
  let ?vs = "(replicate 100 0)[4 := 5, 7 := 5::nat]"
  have h1: "length ?rs = 10" by simp
  have h2: "\<forall>r\<in>set ?rs. 0 \<le> r"
    by (auto dest!: set_update_subset_insert [THEN subsetD])
  have h3: "(1::nat) < 2" "(2::nat) < 10" "?rs ! 1 = ?rs ! 2" by simp_all
  have h4: "\<forall>k<10. ?rs ! k \<le> ?rs ! 1" by (simp add: nth_list_update)
  have h5: "\<forall>k<1. ?rs ! k < ?rs ! 1" by (simp add: nth_list_update)
  have g1: "length ?vs = 100" by simp
  have g3: "(4::nat) < 7" "(7::nat) < 100" "?vs ! 4 = ?vs ! 7" by simp_all
  have g4: "\<forall>k<100. ?vs ! k \<le> ?vs ! 4" by (simp add: nth_list_update)
  have g5: "\<forall>k<4. ?vs ! k < ?vs ! 4" by (simp add: nth_list_update)
  from argmax_tie_break [OF h1 h2 h3 h4 h5 g1 g3 g4 g5] h1 h2 h3 h4 h5 g1 g3 g4 g5
  show ?thesis by blast
qed

lemma predict_prediction_lt: "prediction (fst (predict rnd inputData w)) < 10"
proof (cases "if isLoaded w then window_nn w else None")
  case None
  then show ?thesis by (simp add: predict_def)
next
  case (Some nn)
  obtain m p rd where sc: "argmax_scan 10 (nn inputData) = (m, p, rd)"
    by (cases "argmax_scan 10 (nn inputData)") auto
  from argmax_scan_pred_bound [OF sc] have "p < 10" by auto
  with Some sc show ?thesis
    by (simp add: predict_def call_nn_def Let_def)
qed

lemma tally_high:
  assumes "\<And>nn x. window_nn w = Some nn \<Longrightarrow> length (nn x) = 10" and "10 \<le> k" and "k < 100"
  shows "tally rnd inputData w ! k = 0"
proof -
  let ?w1 = "snd (augmentInput rnd inputData w)"
  have "\<And>nn x. window_nn ?w1 = Some nn \<Longrightarrow> length (nn x) = 10"
    using assms(1) by (simp add: augmentInput_network)
  then have "fst (foldl cast_vote (replicate 100 0, ?w1) (fst (augmentInput rnd inputData w))) ! k
      = replicate 100 0 ! k"
    using assms(2) by (rule foldl_cast_vote_high)
  with assms(3) show ?thesis
    by (simp add: tally_def cast_votes_def case_prod_beta)
qed

text \<open>
  C10: when the classifier returns ten entries for every query, the class that \<open>verify\<close>
  returns and the class that \<open>predict\<close> returns are both below 10, and the slots 10 to 99
  of the vote tally are never incremented.
\<close>

theorem winning_class_in_range:
  assumes "\<forall>nn x. window_nn w = Some nn \<longrightarrow> length (nn x) = 10"
  shows "prediction (fst (verify rnd inputData w)) < 10 \<and>
         prediction (fst (predict rnd inputData w)) < 10 \<and>
         (\<forall>k. 10 \<le> k \<and> k < 100 \<longrightarrow> tally rnd inputData w ! k = 0)"
proof -
  let ?t = "tally rnd inputData w"
  from assms have len: "\<And>nn x. window_nn w = Some nn \<Longrightarrow> length (nn x) = 10" by blast
  have high: "\<forall>k. 10 \<le> k \<and> k < 100 \<longrightarrow> ?t ! k = 0"
  proof (intro allI impI)
    fix k :: nat assume k: "10 \<le> k \<and> k < 100"
    show "?t ! k = 0"
      by (rule tally_high) (use len k in auto)
  qed
  obtain win m where fw: "find_winner ?t = (win, m)"
    by (cases "find_winner ?t") auto
  note p = find_winner_props [OF tally_length fw]
  have "win < 10"
  proof (rule ccontr)
    assume "\<not> win < 10"
    with p(1,2) high have "m = 0" and "0 < win" by auto
    with p(4) show False by auto
  qed
  with high show ?thesis
    by (simp add: verify_prediction fw predict_prediction_lt)
qed

theorem winning_class_in_range_witness:
  "prediction (fst (verify (\<lambda>k. 0) [Num 1]
      \<lparr>isLoaded = True, window_nn = Some (\<lambda>x. replicate 10 (Num 0)),
        activations = \<lparr>act_input = [], act_hidden = [], act_output = []\<rparr>,
        nn_calls = [], random_draws = 0\<rparr>)) < 10 \<and>
   prediction (fst (predict (\<lambda>k. 0) [Num 1]
      \<lparr>isLoaded = True, window_nn = Some (\<lambda>x. replicate 10 (Num 0)),
        activations = \<lparr>act_input = [], act_hidden = [], act_output = []\<rparr>,
        nn_calls = [], random_draws = 0\<rparr>)) < 10"
proof -
  let ?w = "\<lparr>isLoaded = True, window_nn = Some (\<lambda>x. replicate 10 (Num 0)),
        activations = \<lparr>act_input = [], act_hidden = [], act_output = []\<rparr>,
        nn_calls = [], random_draws = 0\<rparr>"
  have h: "\<forall>nn x. window_nn ?w = Some nn \<longrightarrow> length (nn x) = 10" by auto
  from winning_class_in_range [OF h, of "\<lambda>k. 0" "[Num 1]"] h show ?thesis by blast
qed


section \<open>The ensemble of augmentInput\<close>

lemma shift_px_eq:
  "shift_px dx dy inp y sh x =
     (if in_grid dx dy x y then sh[y * 28 + x := src_val dx dy inp x y] else sh)"
  by (simp add: shift_px_def in_grid_def src_val_def f32_set_def Let_def list_update_beyond)

lemma shift_px_length: "length (shift_px dx dy inp y sh x) = length sh"
  by (simp add: shift_px_eq)

lemma shift_px_nth:
  "shift_px dx dy inp y sh x ! j =
     (if in_grid dx dy x y \<and> j = y * 28 + x \<and> j < length sh
      then src_val dx dy inp x y else sh ! j)"
  by (auto simp: shift_px_eq nth_list_update list_update_beyond)

lemma shift_px_loop_length:
  "length (foldl (shift_px dx dy inp y) sh [0..<n]) = length sh"
  by (induction n) (simp_all add: shift_px_length)

lemma shift_px_loop_nth:
  "foldl (shift_px dx dy inp y) sh [0..<n] ! j =
     (if j < length sh \<and> y * 28 \<le> j \<and> j < y * 28 + n \<and> in_grid dx dy (j - y * 28) y
      then src_val dx dy inp (j - y * 28) y else sh ! j)"
proof (induction n)
  case 0
  then show ?case by auto
next
  case (Suc n)
  show ?case
  proof (cases "j = y * 28 + n")
    case True
    then show ?thesis using Suc
      by (simp add: shift_px_nth shift_px_loop_length)
  next
    case False
    then have "j < y * 28 + Suc n \<longleftrightarrow> j < y * 28 + n" by auto
    with False show ?thesis using Suc
      by (simp add: shift_px_nth shift_px_loop_length)
  qed
qed

lemma shift_row_length: "length (shift_row dx dy inp sh y) = length sh"
  by (simp add: shift_row_def shift_px_loop_length)

lemma shift_row_nth:
  "shift_row dx dy inp sh y ! j =
     (if j < length sh \<and> y * 28 \<le> j \<and> j < y * 28 + 28 \<and> in_grid dx dy (j - y * 28) y
      then src_val dx dy inp (j - y * 28) y else sh ! j)"
  by (simp add: shift_row_def shift_px_loop_nth)

lemma shift_row_loop_length:
  "length (foldl (shift_row dx dy inp) sh [0..<m]) = length sh"
  by (induction m) (simp_all add: shift_row_length)

lemma row_index:
  fixes j m :: nat
  shows "m * 28 \<le> j \<and> j < m * 28 + 28 \<longleftrightarrow> j div 28 = m"
  by (auto simp: div_nat_eqI) (simp_all add: algebra_simps)?

lemma shift_row_loop_nth:
  "foldl (shift_row dx dy inp) sh [0..<m] ! j =
     (if j < length sh \<and> j < m * 28 \<and> in_grid dx dy (j mod 28) (j div 28)
      then src_val dx dy inp (j mod 28) (j div 28) else sh ! j)"
proof (induction m)
  case 0
  then show ?case by simp
next
  case (Suc m)
  show ?case
  proof (cases "j div 28 = m")
    case True
    then have b: "m * 28 \<le> j" "j < m * 28 + 28" using row_index [of m j] by simp_all
    have md: "j - m * 28 = j mod 28" using True
      by (metis add_diff_cancel_left' mult.commute div_mult_mod_eq)
    from b have "\<not> j < m * 28" by simp
    with b md True show ?thesis using Suc
      by (simp add: shift_row_nth shift_row_loop_length)
  next
    case False
    then have nb: "\<not> (m * 28 \<le> j \<and> j < m * 28 + 28)" using row_index [of m j] by simp
    then have "j < Suc m * 28 \<longleftrightarrow> j < m * 28" by auto
    with nb show ?thesis using Suc
      by (auto simp: shift_row_nth shift_row_loop_length)
  qed
qed

lemma shift_length: "length (shift dx dy inp) = length inp"
  by (simp add: shift_def shift_row_loop_length)

lemma shift_nth:
  "j < length inp \<Longrightarrow> shift dx dy inp ! j =
     (if j < 784 \<and> in_grid dx dy (j mod 28) (j div 28)
      then src_val dx dy inp (j mod 28) (j div 28) else Num 0)"
  by (simp add: shift_def shift_row_loop_nth)

lemma shift_pixel:
  assumes "x < 28" and "y < 28" and "y * 28 + x < length inp"
  shows "shift dx dy inp ! (y * 28 + x) =
     (if in_grid dx dy x y then src_val dx dy inp x y else Num 0)"
proof -
  from assms have "y * 28 + x < 784" by simp
  moreover have "(y * 28 + x) mod 28 = x" "(y * 28 + x) div 28 = y" using assms by simp_all
  ultimately show ?thesis using assms(3) by (simp add: shift_nth)
qed

lemma shift_pixel_784:
  assumes "length inp = 784" and "x < 28" and "y < 28"
  shows "shift dx dy inp ! (y * 28 + x) =
     (if 0 \<le> int x + dx \<and> int x + dx < 28 \<and> 0 \<le> int y + dy \<and> int y + dy < 28
      then inp ! nat ((int y + dy) * 28 + (int x + dx)) else Num 0)"
proof -
  have px: "shift dx dy inp ! (y * 28 + x) =
      (if in_grid dx dy x y then src_val dx dy inp x y else Num 0)"
    using assms by (intro shift_pixel) simp_all
  show ?thesis
  proof (cases "in_grid dx dy x y")
    case True
    then have "nat ((int y + dy) * 28 + (int x + dx)) < 784"
      by (auto simp: in_grid_def)
    with assms(1) have "src_val dx dy inp x y = inp ! nat ((int y + dy) * 28 + (int x + dx))"
      by (simp add: src_val_def js_index_def)
    with px True show ?thesis
      unfolding in_grid_def by simp
  next
    case False
    with px show ?thesis
      unfolding in_grid_def by auto
  qed
qed

lemma augmentInput_variations:
  "fst (augmentInput rnd inp w) =
     [inp, shift (-1) (-1) inp, shift 0 (-1) inp, shift 1 (-1) inp, shift (-1) 0 inp,
      shift 1 0 inp, shift (-1) 1 inp, shift 0 1 inp, shift 1 1 inp,
      map (\<lambda>i. clamp01 (noise_val inp i (rnd (random_draws w + i)))) [0..<length inp]]"
  by (simp add: augmentInput_def)

text \<open>
  C7: the variants 1 to 8 of the ensemble are the shifts by the offsets \<open>(dx, dy)\<close> with
  \<open>dy\<close> ascending and, for each \<open>dy\<close>, \<open>dx\<close> ascending, without \<open>(0, 0)\<close>. In each, the pixel at
  \<open>(x, y)\<close> is the input's pixel at \<open>(x + dx, y + dy)\<close> when that lies in the 28 by 28 grid, and
  zero otherwise.
\<close>

theorem shift_variants:
  assumes "length inputData = 784" and "k < 8" and "x < 28" and "y < 28"
    and "(dx, dy) = [(-1, -1), (0, -1), (1, -1), (-1, 0), (1, 0), (-1, 1), (0, 1), (1, 1)] ! k"
  shows "fst (augmentInput rnd inputData w) ! Suc k ! (y * 28 + x) =
     (if 0 \<le> int x + dx \<and> int x + dx < 28 \<and> 0 \<le> int y + dy \<and> int y + dy < 28
      then inputData ! nat ((int y + dy) * 28 + (int x + dx)) else Num 0)"
proof -
  from assms(2) have "k = 0 \<or> k = 1 \<or> k = 2 \<or> k = 3 \<or> k = 4 \<or> k = 5 \<or> k = 6 \<or> k = 7"
    by auto
  with assms(5) have "fst (augmentInput rnd inputData w) ! Suc k = shift dx dy inputData"
    by (auto simp: augmentInput_variations)
  with assms(1,3,4) show ?thesis
    by (simp only: shift_pixel_784)
qed

theorem shift_variants_witness:
  "length (map (\<lambda>i. Num (real i)) [0..<784]) = 784 \<and> (2::nat) < 8 \<and> (3::nat) < 28 \<and> (5::nat) < 28 \<and>
   fst (augmentInput (\<lambda>k. 0) (map (\<lambda>i. Num (real i)) [0..<784])
      \<lparr>isLoaded = True, window_nn = None,
        activations = \<lparr>act_input = [], act_hidden = [], act_output = []\<rparr>,
        nn_calls = [], random_draws = 0\<rparr>) ! 3 ! (5 * 28 + 3) = Num 116 \<and>
   fst (augmentInput (\<lambda>k. 0) (map (\<lambda>i. Num (real i)) [0..<784])
      \<lparr>isLoaded = True, window_nn = None,
        activations = \<lparr>act_input = [], act_hidden = [], act_output = []\<rparr>,
        nn_calls = [], random_draws = 0\<rparr>) ! 3 ! (5 * 28 + 27) = Num 0"
proof -
  let ?v = "map (\<lambda>i. Num (real i)) [0..<784]"
  have h: "length ?v = 784" "(2::nat) < 8" "(3::nat) < 28" "(5::nat) < 28" "(27::nat) < 28"
    "((1::int), (-1::int)) =
       [(-1, -1), (0, -1), (1, -1), (-1, 0), (1, 0), (-1, 1), (0, 1), (1, 1)] ! 2"
    by simp_all
  from shift_variants [OF h(1,2,3,4,6)] shift_variants [OF h(1,2,5,4,6)] h
  show ?thesis by simp
qed

text \<open>
  C8, as the code has it: the shift by \<open>(dx, dy)\<close> followed by the shift by \<open>(-dx, -dy)\<close>
  gives back the input's pixel at every \<open>(x, y)\<close> for which \<open>(x - dx, y - dy)\<close> lies in the
  grid, and zero at the other pixels: the border whose content the first shift moved off
  the grid, which the second shift fills with zero.
\<close>

theorem shift_round_trip:
  assumes "length inputData = 784" and "x < 28" and "y < 28"
  shows "shift (- dx) (- dy) (shift dx dy inputData) ! (y * 28 + x) =
     (if 0 \<le> int x - dx \<and> int x - dx < 28 \<and> 0 \<le> int y - dy \<and> int y - dy < 28
      then inputData ! (y * 28 + x) else Num 0)"
proof (cases "0 \<le> int x - dx \<and> int x - dx < 28 \<and> 0 \<le> int y - dy \<and> int y - dy < 28")
  case True
  define x' y' where "x' = nat (int x - dx)" and "y' = nat (int y - dy)"
  with True have xy: "x' < 28" "y' < 28" "int x' = int x - dx" "int y' = int y - dy"
    by auto
  then have idx: "nat ((int y + - dy) * 28 + (int x + - dx)) = y' * 28 + x'"
    by (simp add: nat_eq_iff)
  have bk: "nat ((int y' + dy) * 28 + (int x' + dx)) = y * 28 + x"
    using xy by (simp add: nat_eq_iff)
  have len: "length (shift dx dy inputData) = 784"
    using assms(1) by (simp add: shift_length)
  have "shift (- dx) (- dy) (shift dx dy inputData) ! (y * 28 + x)
      = shift dx dy inputData ! (y' * 28 + x')"
    using True idx by (simp add: shift_pixel_784 [OF len assms(2,3)])
  also have "\<dots> = inputData ! (y * 28 + x)"
    using xy assms(2,3) bk by (simp add: shift_pixel_784 [OF assms(1) xy(1,2)])
  finally show ?thesis using True by simp
next
  case False
  have len: "length (shift dx dy inputData) = 784"
    using assms(1) by (simp add: shift_length)
  from False show ?thesis
    by (auto simp: shift_pixel_784 [OF len assms(2,3)])
qed

theorem shift_round_trip_witness:
  "length (replicate 784 (Num 1)) = 784 \<and> (27::nat) < 28 \<and> (0::nat) < 28 \<and>
   shift (- 1) (- 0) (shift 1 0 (replicate 784 (Num 1))) ! (0 * 28 + 27) = Num 1 \<and>
   shift (- 1) (- 0) (shift 1 0 (replicate 784 (Num 1))) ! (0 * 28 + 0) = Num 0"
proof -
  have h: "length (replicate 784 (Num 1)) = 784" "(27::nat) < 28" "(0::nat) < 28"
    by simp_all
  from shift_round_trip [OF h(1,2,3), of 1 0] shift_round_trip [OF h(1,3,3), of 1 0] h
  show ?thesis by simp
qed

text \<open>
  C8 as stated fails: after the shift by \<open>(1, 0)\<close> of an all-ones image and the shift back by
  \<open>(-1, 0)\<close>, the pixel \<open>(27, 0)\<close>, which the first shift had filled with zero, is 1 again,
  and the pixel \<open>(0, 0)\<close>, which the first shift had not filled with zero, is 0 and not
  the original 1.
\<close>

theorem shift_round_trip_counterexample:
  "shift 1 0 (replicate 784 (Num 1)) ! (0 * 28 + 27) = Num 0 \<and>
   shift (- 1) 0 (shift 1 0 (replicate 784 (Num 1))) ! (0 * 28 + 27) = Num 1 \<and>
   shift 1 0 (replicate 784 (Num 1)) ! (0 * 28 + 0) = Num 1 \<and>
   replicate 784 (Num 1) ! (0 * 28 + 0) = Num 1 \<and>
   shift (- 1) 0 (shift 1 0 (replicate 784 (Num 1))) ! (0 * 28 + 0) = Num 0"
proof -
  let ?v = "replicate 784 (Num 1)"
  have len: "length ?v = 784" and len1: "length (shift 1 0 ?v) = 784"
    by (simp_all add: shift_length)
  have a: "shift 1 0 ?v ! (0 * 28 + 27) = Num 0"
    using shift_pixel_784 [OF len, of 27 0 1 0] by simp
  have b: "shift 1 0 ?v ! (0 * 28 + 26) = Num 1"
    using shift_pixel_784 [OF len, of 26 0 1 0] by simp
  have c: "shift (- 1) 0 (shift 1 0 ?v) ! (0 * 28 + 27) = shift 1 0 ?v ! (0 * 28 + 26)"
    using shift_pixel_784 [OF len1, of 27 0 "- 1" 0] by simp
  have d: "shift 1 0 ?v ! (0 * 28 + 0) = Num 1"
    using shift_pixel_784 [OF len, of 0 0 1 0] by simp
  have e: "shift (- 1) 0 (shift 1 0 ?v) ! (0 * 28 + 0) = Num 0"
    using shift_pixel_784 [OF len1, of 0 0 "- 1" 0] by simp
  from a b c d e show ?thesis by simp
qed






section \<open>Classifier calls and the unavailable classifier\<close>

lemma foldl_cast_vote_unavailable:
  "window_nn w = None \<Longrightarrow> foldl cast_vote (votes, w) vs = (votes, w)"
  by (induction vs) (simp_all add: cast_vote_def)

lemma tally_unavailable: "window_nn w = None \<Longrightarrow> tally rnd inputData w = replicate 100 0"
  by (simp add: tally_def cast_votes_def case_prod_beta augmentInput_network
      foldl_cast_vote_unavailable)

lemma find_winner_zero: "find_winner (replicate 100 0) = (0, 0)"
proof -
  obtain win m where fw: "find_winner (replicate 100 0) = (win, m)"
    by (cases "find_winner (replicate 100 0)") auto
  have len: "length (replicate 100 (0::nat)) = 100" by simp
  note p = find_winner_props [OF len fw]
  from p(1,2) have "m = 0" by simp
  with p(4) have "win = 0" by auto
  with \<open>m = 0\<close> fw show ?thesis by simp
qed

lemma predict_unavailable:
  "\<not> isLoaded w \<or> window_nn w = None \<Longrightarrow>
   predict rnd inputData w =
     (\<lparr>prediction = 0, confidence = 0, probabilities = replicate 10 (Num (1 / 10)),
       result_activations = activations w, isVerified = False\<rparr>, w)"
  by (auto simp: predict_def)

lemma cast_votes_network:
  "snd (cast_votes vs w) = (if window_nn w = None then w else w\<lparr>nn_calls := nn_calls w @ vs\<rparr>)"
  using foldl_cast_vote [of "replicate 100 0" w vs] by (simp add: cast_votes_def)

lemma verify_network:
  "snd (verify rnd inputData w) =
     snd (predict rnd inputData
       (snd (cast_votes (fst (augmentInput rnd inputData w)) (snd (augmentInput rnd inputData w)))))"
  by (simp add: verify_def case_prod_beta)

lemma verify_result:
  "fst (verify rnd inputData w) =
     (fst (predict rnd inputData
        (snd (cast_votes (fst (augmentInput rnd inputData w)) (snd (augmentInput rnd inputData w))))))
     \<lparr>prediction := fst (find_winner (tally rnd inputData w)),
      confidence := real (snd (find_winner (tally rnd inputData w))) / 10,
      isVerified := True\<rparr>"
  by (simp add: verify_def tally_def case_prod_beta augmentInput_length)

lemma verify_unavailable:
  assumes "window_nn w = None"
  shows "verify rnd inputData w =
     (\<lparr>prediction = 0, confidence = 0, probabilities = replicate 10 (Num (1 / 10)),
       result_activations = activations w, isVerified = True\<rparr>,
      w\<lparr>random_draws := random_draws w + length inputData\<rparr>)"
proof -
  let ?w1 = "w\<lparr>random_draws := random_draws w + length inputData\<rparr>"
  have w2: "snd (cast_votes (fst (augmentInput rnd inputData w)) (snd (augmentInput rnd inputData w))) = ?w1"
    using assms by (simp add: cast_votes_network augmentInput_network)
  have p: "predict rnd inputData ?w1 =
     (\<lparr>prediction = 0, confidence = 0, probabilities = replicate 10 (Num (1 / 10)),
       result_activations = activations ?w1, isVerified = False\<rparr>, ?w1)"
    by (rule predict_unavailable) (simp add: assms)
  have "fst (verify rnd inputData w) =
     \<lparr>prediction = 0, confidence = 0, probabilities = replicate 10 (Num (1 / 10)),
       result_activations = activations w, isVerified = True\<rparr>"
    by (simp add: verify_result w2 p tally_unavailable [OF assms] find_winner_zero)
  moreover have "snd (verify rnd inputData w) = ?w1"
    by (simp add: verify_network w2 p)
  ultimately show ?thesis by (simp add: prod_eq_iff)
qed

lemma predict_network:
  "snd (predict rnd inputData w) =
     (case (if isLoaded w then window_nn w else None) of
        None \<Rightarrow> w
      | Some nn \<Rightarrow> w\<lparr>nn_calls := nn_calls w @ [inputData],
            activations := \<lparr>act_input = inputData,
              act_hidden = map (\<lambda>i. Num (rnd (random_draws w + i) *
                fst (argmax_scan 10 (nn inputData)))) [0..<64],
              act_output = nn inputData\<rparr>,
            random_draws := random_draws w + 64\<rparr>)"
  by (simp add: predict_def call_nn_def case_prod_beta Let_def split: option.splits)

lemma predict_calls:
  "nn_calls (snd (predict rnd inputData w)) =
     nn_calls w @ (if isLoaded w \<and> window_nn w \<noteq> None then [inputData] else [])"
  by (auto simp: predict_network split: option.splits)

lemma predict_frame:
  "isLoaded (snd (predict rnd inputData w)) = isLoaded w \<and>
   window_nn (snd (predict rnd inputData w)) = window_nn w"
  by (auto simp: predict_network split: option.splits)

lemma predict_activations:
  "activations (snd (predict rnd inputData w)) = result_activations (fst (predict rnd inputData w))"
  by (auto simp: predict_def call_nn_def case_prod_beta Let_def split: option.splits)

lemma verify_calls:
  "nn_calls (snd (verify rnd inputData w)) =
     nn_calls w @ (if window_nn w = None then [] else fst (augmentInput rnd inputData w))
       @ (if isLoaded w \<and> window_nn w \<noteq> None then [inputData] else [])"
  by (simp add: verify_network predict_calls cast_votes_network augmentInput_network)

lemma verify_frame:
  "isLoaded (snd (verify rnd inputData w)) = isLoaded w \<and>
   window_nn (snd (verify rnd inputData w)) = window_nn w"
  by (simp add: verify_network predict_frame cast_votes_network augmentInput_network)

lemma verify_activations:
  "activations (snd (verify rnd inputData w)) = result_activations (fst (verify rnd inputData w))"
  by (simp add: verify_network verify_result predict_activations)

text \<open>
  C1, where the code departs from it: on a distribution of ten entries the class scan of
  \<open>verify\<close> reads the indices 0 to 99, of which 10 to 99 are outside the distribution
  (\<open>undefined\<close>), and the vote tally has 100 slots; the scan of \<open>predict\<close> reads 0 to 9.
\<close>

theorem verify_scan_reads_past_distribution:
  "length (Num 1 # replicate 9 (Num 0)) = 10 \<and>
   snd (snd (argmax_scan 100 (Num 1 # replicate 9 (Num 0)))) = [0..<100] \<and>
   js_index (Num 1 # replicate 9 (Num 0)) 10 = None \<and>
   js_index (Num 1 # replicate 9 (Num 0)) 99 = None \<and>
   snd (snd (argmax_scan 10 (Num 1 # replicate 9 (Num 0)))) = [0..<10] \<and>
   length (tally (\<lambda>k. 0) (replicate 784 (Num 0))
      \<lparr>isLoaded = True, window_nn = Some (\<lambda>x. Num 1 # replicate 9 (Num 0)),
        activations = \<lparr>act_input = [], act_hidden = [], act_output = []\<rparr>,
        nn_calls = [], random_draws = 0\<rparr>) = 100"
  by (simp add: argmax_scan_def argmax_reads js_index_def tally_length)

text \<open>
  C2, as the code has it: with \<open>window.nn\<close> absent, \<open>verify\<close> and \<open>predict\<close> do not fail. Both
  return class 0 with confidence 0 and the uniform distribution of ten entries 0.1
  (\<open>verify\<close> marks it verified), and the classifier is not called.
\<close>

theorem unavailable_returns_default:
  assumes "window_nn w = None"
  shows "fst (verify rnd inputData w) =
           \<lparr>prediction = 0, confidence = 0, probabilities = replicate 10 (Num (1 / 10)),
            result_activations = activations w, isVerified = True\<rparr> \<and>
         fst (predict rnd inputData w) =
           \<lparr>prediction = 0, confidence = 0, probabilities = replicate 10 (Num (1 / 10)),
            result_activations = activations w, isVerified = False\<rparr> \<and>
         nn_calls (snd (verify rnd inputData w)) = nn_calls w \<and>
         nn_calls (snd (predict rnd inputData w)) = nn_calls w"
  using assms by (simp add: verify_unavailable predict_unavailable)

theorem unavailable_returns_default_witness:
  "window_nn \<lparr>isLoaded = False, window_nn = None,
        activations = \<lparr>act_input = [], act_hidden = [], act_output = []\<rparr>,
        nn_calls = [], random_draws = 0\<rparr> = None \<and>
   fst (verify (\<lambda>k. 0) (replicate 784 (Num 0))
      \<lparr>isLoaded = False, window_nn = None,
        activations = \<lparr>act_input = [], act_hidden = [], act_output = []\<rparr>,
        nn_calls = [], random_draws = 0\<rparr>) =
     \<lparr>prediction = 0, confidence = 0, probabilities = replicate 10 (Num (1 / 10)),
      result_activations = \<lparr>act_input = [], act_hidden = [], act_output = []\<rparr>,
      isVerified = True\<rparr>"
proof -
  let ?w = "\<lparr>isLoaded = False, window_nn = None,
        activations = \<lparr>act_input = [], act_hidden = [], act_output = []\<rparr>,
        nn_calls = [], random_draws = 0\<rparr>"
  have h: "window_nn ?w = None" by simp
  from unavailable_returns_default [OF h, of "\<lambda>k. 0" "replicate 784 (Num 0)"] h
  show ?thesis by simp
qed

text \<open>
  C2 as stated fails: with the classifier unavailable, \<open>verify\<close> returns a result, and both
  \<open>verify\<close> and \<open>predict\<close> return the uniform distribution.
\<close>

theorem unavailable_counterexample:
  "probabilities (fst (verify (\<lambda>k. 1 / 2) (replicate 784 (Num 1))
      \<lparr>isLoaded = False, window_nn = None,
        activations = \<lparr>act_input = [], act_hidden = [], act_output = []\<rparr>,
        nn_calls = [], random_draws = 0\<rparr>)) = replicate 10 (Num (1 / 10)) \<and>
   prediction (fst (verify (\<lambda>k. 1 / 2) (replicate 784 (Num 1))
      \<lparr>isLoaded = False, window_nn = None,
        activations = \<lparr>act_input = [], act_hidden = [], act_output = []\<rparr>,
        nn_calls = [], random_draws = 0\<rparr>)) = 0 \<and>
   isVerified (fst (verify (\<lambda>k. 1 / 2) (replicate 784 (Num 1))
      \<lparr>isLoaded = False, window_nn = None,
        activations = \<lparr>act_input = [], act_hidden = [], act_output = []\<rparr>,
        nn_calls = [], random_draws = 0\<rparr>)) \<and>
   probabilities (fst (predict (\<lambda>k. 1 / 2) (replicate 784 (Num 1))
      \<lparr>isLoaded = False, window_nn = None,
        activations = \<lparr>act_input = [], act_hidden = [], act_output = []\<rparr>,
        nn_calls = [], random_draws = 0\<rparr>)) = replicate 10 (Num (1 / 10))"
  by (simp add: verify_unavailable predict_unavailable)

text \<open>
  C3, as the code has it: \<open>verify\<close> calls the classifier on each of the ten variants (when
  \<open>window.nn\<close> is there) and once more, on the input, in its final \<open>predict\<close> (when the
  model is also loaded): 11 calls, 10 or none. \<open>predict\<close> calls it once when the model is
  loaded and \<open>window.nn\<close> is there, and not otherwise. \<open>verify\<close> leaves \<open>isLoaded\<close> and
  \<open>window.nn\<close> as they are; through its final \<open>predict\<close> it overwrites the activations of
  the network object with the ones it returns, and it draws from \<open>Math.random()\<close>.
\<close>

theorem classifier_calls:
  "nn_calls (snd (verify rnd inputData w)) =
     nn_calls w @ (if window_nn w = None then [] else fst (augmentInput rnd inputData w))
       @ (if isLoaded w \<and> window_nn w \<noteq> None then [inputData] else []) \<and>
   length (nn_calls (snd (verify rnd inputData w))) =
     length (nn_calls w) + (if window_nn w = None then 0 else if isLoaded w then 11 else 10) \<and>
   nn_calls (snd (predict rnd inputData w)) =
     nn_calls w @ (if isLoaded w \<and> window_nn w \<noteq> None then [inputData] else []) \<and>
   isLoaded (snd (verify rnd inputData w)) = isLoaded w \<and>
   window_nn (snd (verify rnd inputData w)) = window_nn w \<and>
   activations (snd (verify rnd inputData w)) = result_activations (fst (verify rnd inputData w)) \<and>
   random_draws (snd (verify rnd inputData w)) =
     random_draws w + length inputData + (if isLoaded w \<and> window_nn w \<noteq> None then 64 else 0)"
proof -
  have "random_draws (snd (verify rnd inputData w)) =
     random_draws w + length inputData + (if isLoaded w \<and> window_nn w \<noteq> None then 64 else 0)"
    by (auto simp: verify_network predict_network cast_votes_network augmentInput_network
        split: option.splits)
  then show ?thesis
    by (simp add: verify_calls predict_calls verify_frame verify_activations augmentInput_length)
qed

text \<open>
  C3 as stated fails: with the model loaded, one \<open>verify\<close> calls the classifier 11 times,
  and it replaces the stored input activations.
\<close>

theorem classifier_calls_counterexample:
  "length (nn_calls (snd (verify (\<lambda>k. 0) (replicate 784 (Num 0))
      \<lparr>isLoaded = True, window_nn = Some (\<lambda>x. Num 1 # replicate 9 (Num 0)),
        activations = \<lparr>act_input = [], act_hidden = [], act_output = []\<rparr>,
        nn_calls = [], random_draws = 0\<rparr>))) = 11 \<and>
   act_input (activations (snd (verify (\<lambda>k. 0) (replicate 784 (Num 0))
      \<lparr>isLoaded = True, window_nn = Some (\<lambda>x. Num 1 # replicate 9 (Num 0)),
        activations = \<lparr>act_input = [], act_hidden = [], act_output = []\<rparr>,
        nn_calls = [], random_draws = 0\<rparr>))) = replicate 784 (Num 0)"
  by (simp add: verify_calls augmentInput_length verify_network predict_network
      cast_votes_network augmentInput_network)


section \<open>The votes in the tally\<close>

lemma cast_vote_available:
  assumes "window_nn w = Some nn"
  shows "cast_vote (votes, w) data =
     (votes[fst (snd (argmax_scan 100 (nn data))) :=
        votes ! fst (snd (argmax_scan 100 (nn data))) + 1],
      w\<lparr>nn_calls := nn_calls w @ [data]\<rparr>)"
  using assms by (simp add: cast_vote_def call_nn_def case_prod_beta)

lemma foldl_cast_vote_count:
  assumes "window_nn w = Some nn" and "c < length votes" and "100 \<le> length votes"
  shows "fst (foldl cast_vote (votes, w) vs) ! c =
     votes ! c + length (filter (\<lambda>data. fst (snd (argmax_scan 100 (nn data))) = c) vs)"
proof (induction vs rule: rev_induct)
  case Nil
  then show ?case by simp
next
  case (snoc v vs)
  obtain votes' w' where st: "foldl cast_vote (votes, w) vs = (votes', w')"
    by (cases "foldl cast_vote (votes, w) vs") auto
  have f: "length votes' = length votes" "window_nn w' = Some nn"
    using foldl_cast_vote [of votes w vs] st assms(1) by (auto split: if_splits)
  let ?p = "fst (snd (argmax_scan 100 (nn v)))"
  have "?p = 0 \<or> ?p < 100"
    using argmax_scan_pred_bound [of 100 "nn v"] by (cases "argmax_scan 100 (nn v)") auto
  with assms(3) have p: "?p < length votes'" by (auto simp: f)
  have "fst (cast_vote (votes', w') v) ! c = votes' ! c + (if ?p = c then 1 else 0)"
    using p assms(2) f by (simp add: cast_vote_available [OF f(2)] nth_list_update)
  with snoc st show ?case by simp
qed

lemma tally_counts:
  "tally rnd inputData w =
     map (\<lambda>c. case window_nn w of None \<Rightarrow> 0
               | Some nn \<Rightarrow> length (filter (\<lambda>data. fst (snd (argmax_scan 100 (nn data))) = c)
                   (fst (augmentInput rnd inputData w)))) [0..<100]"
proof (rule nth_equalityI)
  show "length (tally rnd inputData w) = length (map (\<lambda>c. case window_nn w of None \<Rightarrow> 0
               | Some nn \<Rightarrow> length (filter (\<lambda>data. fst (snd (argmax_scan 100 (nn data))) = c)
                   (fst (augmentInput rnd inputData w)))) [0..<100])"
    by (simp add: tally_length)
next
  fix c assume "c < length (tally rnd inputData w)"
  then have c: "c < 100" by (simp add: tally_length)
  show "tally rnd inputData w ! c = map (\<lambda>c. case window_nn w of None \<Rightarrow> 0
               | Some nn \<Rightarrow> length (filter (\<lambda>data. fst (snd (argmax_scan 100 (nn data))) = c)
                   (fst (augmentInput rnd inputData w)))) [0..<100] ! c"
  proof (cases "window_nn w")
    case None
    have "tally rnd inputData w = replicate 100 0"
      using None by (rule tally_unavailable)
    with c None show ?thesis by simp
  next
    case (Some nn)
    then have "window_nn (snd (augmentInput rnd inputData w)) = Some nn"
      by (simp add: augmentInput_network)
    from foldl_cast_vote_count [OF this, of c "replicate 100 0" "fst (augmentInput rnd inputData w)"] c
    have "tally rnd inputData w ! c =
        length (filter (\<lambda>data. fst (snd (argmax_scan 100 (nn data))) = c)
          (fst (augmentInput rnd inputData w)))"
      by (simp add: tally_def cast_votes_def case_prod_beta)
    with c Some show ?thesis by simp
  qed
qed

text \<open>
  C4: the vote tally of \<open>verify\<close> holds, for each class, the number of variants of the
  ensemble whose class scan returns that class (all zero when \<open>window.nn\<close> is absent). The
  confidence that \<open>verify\<close> returns is the tally of the winning class divided by the
  ensemble size 10, that is the number of variants that voted for the winner over 10, and
  it lies between 0 and 1, for every input vector, every state of the network object and
  every classifier.
\<close>

theorem verify_consensus_confidence:
  "tally rnd inputData w =
     map (\<lambda>c. case window_nn w of None \<Rightarrow> 0
               | Some nn \<Rightarrow> length (filter (\<lambda>data. fst (snd (argmax_scan 100 (nn data))) = c)
                   (fst (augmentInput rnd inputData w)))) [0..<100] \<and>
   confidence (fst (verify rnd inputData w)) =
     real (tally rnd inputData w ! prediction (fst (verify rnd inputData w))) / 10 \<and>
   confidence (fst (verify rnd inputData w)) =
     real (case window_nn w of None \<Rightarrow> 0
           | Some nn \<Rightarrow> length (filter (\<lambda>data. fst (snd (argmax_scan 100 (nn data))) =
                 prediction (fst (verify rnd inputData w)))
               (fst (augmentInput rnd inputData w)))) / 10 \<and>
   0 \<le> confidence (fst (verify rnd inputData w)) \<and>
   confidence (fst (verify rnd inputData w)) \<le> 1"
proof -
  let ?t = "tally rnd inputData w"
  let ?count = "\<lambda>c. case window_nn w of None \<Rightarrow> 0
               | Some nn \<Rightarrow> length (filter (\<lambda>data. fst (snd (argmax_scan 100 (nn data))) = c)
                   (fst (augmentInput rnd inputData w)))"
  have counts: "?t = map ?count [0..<100]" by (rule tally_counts)
  obtain win m where fw: "find_winner ?t = (win, m)"
    by (cases "find_winner ?t") auto
  note p = find_winner_props [OF tally_length fw]
  have pred: "prediction (fst (verify rnd inputData w)) = win"
    by (simp add: verify_prediction fw)
  have conf: "confidence (fst (verify rnd inputData w)) = real (?t ! win) / 10"
    using p(2) by (simp add: verify_confidence fw)
  have "?t ! win = map ?count [0..<100] ! win" using counts by simp
  also have "\<dots> = ?count win" using p(1) by (simp split: option.splits)
  finally have cnt: "?t ! win = ?count win" .
  have "m \<in> set ?t" using p(1,2) tally_length [of rnd inputData w]
    by (metis nth_mem)
  then have "m \<le> sum_list ?t" by (simp add: member_le_sum_list)
  with tally_sum [of rnd inputData w] have "m \<le> 10" by linarith
  with p(2) have range: "0 \<le> real (?t ! win) / 10 \<and> real (?t ! win) / 10 \<le> 1" by simp
  have c3: "confidence (fst (verify rnd inputData w)) = real (?count win) / 10"
    using conf cnt by simp
  from counts conf c3 range show ?thesis
    unfolding pred by (simp only: conf) 
qed

theorem verify_consensus_confidence_witness:
  "prediction (fst (verify (\<lambda>k. 0) (replicate 784 (Num 0))
      \<lparr>isLoaded = True, window_nn = Some (\<lambda>x. Num 1 # replicate 9 (Num 0)),
        activations = \<lparr>act_input = [], act_hidden = [], act_output = []\<rparr>,
        nn_calls = [], random_draws = 0\<rparr>)) = 0 \<and>
   tally (\<lambda>k. 0) (replicate 784 (Num 0))
      \<lparr>isLoaded = True, window_nn = Some (\<lambda>x. Num 1 # replicate 9 (Num 0)),
        activations = \<lparr>act_input = [], act_hidden = [], act_output = []\<rparr>,
        nn_calls = [], random_draws = 0\<rparr> ! 0 = 10 \<and>
   confidence (fst (verify (\<lambda>k. 0) (replicate 784 (Num 0))
      \<lparr>isLoaded = True, window_nn = Some (\<lambda>x. Num 1 # replicate 9 (Num 0)),
        activations = \<lparr>act_input = [], act_hidden = [], act_output = []\<rparr>,
        nn_calls = [], random_draws = 0\<rparr>)) = 1"
proof -
  let ?w = "\<lparr>isLoaded = True, window_nn = Some (\<lambda>x. Num 1 # replicate 9 (Num 0)),
        activations = \<lparr>act_input = [], act_hidden = [], act_output = []\<rparr>,
        nn_calls = [], random_draws = 0\<rparr>"
  let ?v = "replicate 784 (Num 0)"
  let ?t = "tally (\<lambda>k. 0) ?v ?w"
  have "fst (snd (argmax_scan 100 (map Num (1 # replicate 9 0)))) = 0"
    by (rule argmax_lowest) (simp_all add: nth_Cons')
  then have scan: "fst (snd (argmax_scan 100 (Num 1 # replicate 9 (Num 0)))) = 0" by simp
  note th = verify_consensus_confidence [of "\<lambda>k. 0" ?v ?w]
  from th have t: "?t = map (\<lambda>c. if c = 0 then 10 else 0) [0..<100]"
    by (simp add: scan augmentInput_length cong: map_cong)
  then have t0: "?t ! 0 = 10" and tk: "\<forall>k<100. ?t ! k \<le> ?t ! 0" by simp_all
  have "fst (find_winner ?t) = 0"
    using tally_length _ tk by (rule find_winner_lowest) simp_all
  then have pred: "prediction (fst (verify (\<lambda>k. 0) ?v ?w)) = 0"
    by (simp add: verify_prediction)
  from th have "confidence (fst (verify (\<lambda>k. 0) ?v ?w)) =
      real (?t ! prediction (fst (verify (\<lambda>k. 0) ?v ?w))) / 10"
    by blast
  with pred t0 show ?thesis by simp
qed


section \<open>The rounding to doubles\<close>

lemma round_even_err: "\<bar>real_of_int (round_even r) - r\<bar> \<le> 1 / 2"
  unfolding round_even_def Let_def by (auto simp: abs_le_iff)

lemma round_even_int: "round_even (of_int z) = z"
  by (simp add: round_even_def)

lemma round_even_mono: "r \<le> r' \<Longrightarrow> round_even r \<le> round_even r'"
proof -
  assume le: "r \<le> r'"
  then have f: "\<lfloor>r\<rfloor> \<le> \<lfloor>r'\<rfloor>" by (rule floor_mono)
  have up: "round_even r \<le> \<lfloor>r\<rfloor> + 1" and lo: "\<lfloor>r'\<rfloor> \<le> round_even r'"
    by (auto simp: round_even_def Let_def)
  show ?thesis
  proof (cases "\<lfloor>r\<rfloor> = \<lfloor>r'\<rfloor>")
    case True
    with le show ?thesis
      by (auto simp: round_even_def Let_def)
  next
    case False
    with f have "\<lfloor>r\<rfloor> + 1 \<le> \<lfloor>r'\<rfloor>" by simp
    with up lo show ?thesis by linarith
  qed
qed

lemma round_even_le: "r \<le> of_int m \<Longrightarrow> round_even r \<le> m"
  using round_even_mono [of r "of_int m"] by (simp add: round_even_int)

lemma round_even_ge: "of_int m \<le> r \<Longrightarrow> m \<le> round_even r"
  using round_even_mono [of "of_int m" r] by (simp add: round_even_int)

lemma ulp_scaled_pos: "0 < ulp_scaled y"
  by (simp add: ulp_scaled_def)

lemma bitlen_mono: "x \<le> y \<Longrightarrow> bitlen x \<le> bitlen y"
  by (simp add: bitlen_def floorlog_mono nat_mono)

lemma scaled_below_top:
  fixes y :: real
  assumes "0 \<le> y"
  shows "y \<le> real_of_int (2 ^ nat (bitlen \<lfloor>y\<rfloor>))"
proof (cases "0 < \<lfloor>y\<rfloor>")
  case True
  from bitlen_bounds [OF True] have "\<lfloor>y\<rfloor> + 1 \<le> 2 ^ nat (bitlen \<lfloor>y\<rfloor>)" by simp
  then have "real_of_int (\<lfloor>y\<rfloor> + 1) \<le> real_of_int (2 ^ nat (bitlen \<lfloor>y\<rfloor>))"
    by (simp only: of_int_le_iff)
  moreover have "y \<le> real_of_int (\<lfloor>y\<rfloor> + 1)" by linarith
  ultimately show ?thesis by linarith
next
  case False
  with assms have z: "\<lfloor>y\<rfloor> = 0" by (simp add: order_antisym)
  then have "y < 1" by linarith
  with z show ?thesis by simp
qed

lemma scaled_above_bottom:
  fixes y :: real
  assumes "0 < \<lfloor>y\<rfloor>"
  shows "real_of_int (2 ^ nat (bitlen \<lfloor>y\<rfloor> - 1)) \<le> y"
proof -
  from bitlen_bounds [OF assms] have "2 ^ nat (bitlen \<lfloor>y\<rfloor> - 1) \<le> \<lfloor>y\<rfloor>" by simp
  then have "real_of_int (2 ^ nat (bitlen \<lfloor>y\<rfloor> - 1)) \<le> real_of_int \<lfloor>y\<rfloor>"
    by (simp only: of_int_le_iff)
  then show ?thesis by linarith
qed

lemma round_scaled_le_top:
  assumes "0 \<le> y"
  shows "round_scaled y \<le> of_int (2 ^ nat (bitlen \<lfloor>y\<rfloor>))"
proof -
  let ?b = "bitlen \<lfloor>y\<rfloor>"
  let ?e = "nat (?b - 53)"
  have e: "?e \<le> nat ?b" by simp
  have split: "(2::int) ^ nat ?b = 2 ^ (nat ?b - ?e) * 2 ^ ?e"
    using e by (simp flip: power_add)
  have u: "ulp_scaled y = 2 ^ ?e" by (simp add: ulp_scaled_def)
  have "y / of_int (ulp_scaled y) \<le> of_int (2 ^ nat ?b) / of_int (ulp_scaled y)"
    using scaled_below_top [OF assms] ulp_scaled_pos [of y]
    by (intro divide_right_mono) simp_all
  also have "\<dots> = of_int (2 ^ (nat ?b - ?e))"
    unfolding u split by simp
  finally have "round_even (y / of_int (ulp_scaled y)) \<le> 2 ^ (nat ?b - ?e)"
    by (rule round_even_le)
  then have "round_even (y / of_int (ulp_scaled y)) * ulp_scaled y \<le> 2 ^ (nat ?b - ?e) * 2 ^ ?e"
    unfolding u by (intro mult_right_mono) simp_all
  then show ?thesis
    unfolding round_scaled_def split by (simp only: of_int_le_iff)
qed

lemma round_scaled_ge_bottom:
  assumes "53 \<le> bitlen \<lfloor>y\<rfloor>"
  shows "of_int (2 ^ nat (bitlen \<lfloor>y\<rfloor> - 1)) \<le> round_scaled y"
proof -
  let ?b = "bitlen \<lfloor>y\<rfloor>"
  let ?e = "nat (?b - 53)"
  have pos: "0 < \<lfloor>y\<rfloor>"
    using assms bitlen_eq_zero_iff [of "\<lfloor>y\<rfloor>"] by (cases "0 < \<lfloor>y\<rfloor>") simp_all
  have ex: "nat (?b - 1) = 52 + ?e" using assms by simp
  have split: "(2::int) ^ nat (?b - 1) = 2 ^ 52 * 2 ^ ?e"
    unfolding ex by (simp only: power_add)
  have u: "ulp_scaled y = 2 ^ ?e" by (simp add: ulp_scaled_def)
  have "of_int (2 ^ 52) = of_int (2 ^ nat (?b - 1)) / real_of_int (ulp_scaled y)"
    unfolding u split by simp
  also have "\<dots> \<le> y / of_int (ulp_scaled y)"
    using scaled_above_bottom [OF pos] ulp_scaled_pos [of y]
    by (intro divide_right_mono) simp_all
  finally have "2 ^ 52 \<le> round_even (y / of_int (ulp_scaled y))"
    by (rule round_even_ge)
  then have "2 ^ 52 * 2 ^ ?e \<le> round_even (y / of_int (ulp_scaled y)) * ulp_scaled y"
    unfolding u by (intro mult_right_mono) simp_all
  then show ?thesis
    unfolding round_scaled_def split by (simp only: of_int_le_iff)
qed

lemma round_scaled_mono:
  assumes "0 \<le> y" and "y \<le> y'"
  shows "round_scaled y \<le> round_scaled y'"
proof -
  let ?b = "bitlen \<lfloor>y\<rfloor>" and ?b' = "bitlen \<lfloor>y'\<rfloor>"
  have b: "?b \<le> ?b'" using assms(2) by (intro bitlen_mono floor_mono)
  show ?thesis
  proof (cases "nat (?b - 53) = nat (?b' - 53)")
    case True
    then have u: "ulp_scaled y' = ulp_scaled y" by (simp add: ulp_scaled_def)
    have "y / of_int (ulp_scaled y) \<le> y' / of_int (ulp_scaled y)"
      using assms(2) ulp_scaled_pos [of y] by (intro divide_right_mono) simp_all
    then have "round_even (y / of_int (ulp_scaled y)) \<le> round_even (y' / of_int (ulp_scaled y))"
      by (rule round_even_mono)
    then have "round_even (y / of_int (ulp_scaled y)) * ulp_scaled y
        \<le> round_even (y' / of_int (ulp_scaled y)) * ulp_scaled y"
      using ulp_scaled_pos [of y] by (intro mult_right_mono) simp_all
    then show ?thesis
      unfolding round_scaled_def u by (simp only: of_int_le_iff)
  next
    case False
    with b have b': "53 \<le> ?b'" and lt: "?b < ?b'" by linarith+
    have "nat ?b \<le> nat (?b' - 1)" using lt by simp
    then have "(2::int) ^ nat ?b \<le> 2 ^ nat (?b' - 1)"
      by (intro power_increasing) simp_all
    then have "real_of_int (2 ^ nat ?b) \<le> real_of_int (2 ^ nat (?b' - 1))"
      by (simp only: of_int_le_iff)
    with round_scaled_le_top [OF assms(1)] round_scaled_ge_bottom [OF b']
    show ?thesis by linarith
  qed
qed

lemma round_scaled_err:
  assumes "2 ^ 52 \<le> y"
  shows "\<bar>round_scaled y - y\<bar> \<le> y / 2 ^ 53"
proof -
  let ?b = "bitlen \<lfloor>y\<rfloor>"
  let ?e = "nat (?b - 53)"
  let ?u = "real_of_int (ulp_scaled y)"
  have "(2::int) ^ 52 \<le> \<lfloor>y\<rfloor>" using assms by (simp add: le_floor_iff)
  then have b: "53 \<le> ?b" by (simp add: bitlen_ge_iff_power)
  then have pos: "0 < \<lfloor>y\<rfloor>"
    using bitlen_eq_zero_iff [of "\<lfloor>y\<rfloor>"] by (cases "0 < \<lfloor>y\<rfloor>") simp_all
  have ex: "nat (?b - 1) = 52 + ?e" using b by simp
  have u: "ulp_scaled y = 2 ^ ?e" by (simp add: ulp_scaled_def)
  have upos: "0 < ?u" using ulp_scaled_pos [of y] by simp
  have "of_int (2 ^ nat (?b - 1)) = 2 ^ 52 * ?u"
    unfolding ex u by (simp add: power_add)
  with scaled_above_bottom [OF pos] have low: "2 ^ 52 * ?u \<le> y" by simp
  have "\<bar>real_of_int (round_even (y / ?u)) - y / ?u\<bar> \<le> 1 / 2"
    by (rule round_even_err)
  then have "\<bar>real_of_int (round_even (y / ?u)) - y / ?u\<bar> * ?u \<le> 1 / 2 * ?u"
    using upos by (intro mult_right_mono) simp_all
  moreover have "\<bar>real_of_int (round_even (y / ?u)) - y / ?u\<bar> * ?u = \<bar>round_scaled y - y\<bar>"
    using upos by (simp add: round_scaled_def abs_mult_pos left_diff_distrib)
  ultimately have "\<bar>round_scaled y - y\<bar> \<le> ?u / 2" by simp
  also have "\<dots> \<le> y / 2 ^ 53" using low by simp
  finally show ?thesis .
qed

lemma round_scaled_exact:
  assumes "0 < n" and "n \<le> 2 ^ 53"
  shows "round_scaled (real n * 2 ^ s) = real n * 2 ^ s"
proof -
  let ?N = "int n * 2 ^ s"
  let ?y = "real n * 2 ^ s"
  have y: "?y = of_int ?N" by simp
  have fl: "\<lfloor>?y\<rfloor> = ?N" unfolding y by (rule floor_of_int)
  have bl: "bitlen ?N = bitlen (int n) + int s" using assms(1) by simp
  have "int n < 2 ^ nat 54" using assms(2) by (simp add: nat_less_iff)
  then have b54: "bitlen (int n) \<le> 54" by (simp add: bitlen_le_iff_power)
  have dvd: "ulp_scaled ?y dvd ?N"
  proof (cases "bitlen (int n) \<le> 53")
    case True
    then have "nat (bitlen ?N - 53) \<le> s" unfolding bl by simp
    then have "(2::int) ^ nat (bitlen ?N - 53) dvd 2 ^ s" by (rule le_imp_power_dvd)
    then show ?thesis unfolding ulp_scaled_def fl by (rule dvd_mult)
  next
    case False
    with b54 have b: "bitlen (int n) = 54" by simp
    then have "2 ^ 53 \<le> int n" using bitlen_ge_iff_power [of 54 "int n"] by simp
    with assms(2) have n: "int n = 2 ^ 53" by simp
    have "nat (bitlen ?N - 53) = s + 1" unfolding bl b by simp
    then show ?thesis unfolding ulp_scaled_def fl n by (simp flip: power_add)
  qed
  then obtain q where q: "?N = ulp_scaled ?y * q" by (rule dvdE)
  have "?y / of_int (ulp_scaled ?y) = of_int q"
    using ulp_scaled_pos [of ?y] unfolding y by (subst q) simp
  then have "round_even (?y / of_int (ulp_scaled ?y)) = q" by (simp only: round_even_int)
  then have "round_scaled ?y = of_int (q * ulp_scaled ?y)" by (simp only: round_scaled_def)
  also have "\<dots> = of_int ?N" by (subst q) (simp only: mult.commute)
  finally show ?thesis by (simp only: y)
qed

lemma round_scaled_zero: "round_scaled 0 = 0"
  by (simp add: round_scaled_def round_even_def)

lemma round_double_pos:
  "0 < x \<Longrightarrow> round_double x = round_scaled (x * 2 ^ subnormal_exp) / 2 ^ subnormal_exp"
  by (simp add: round_double_def)

lemma round_double_zero: "round_double 0 = 0"
  by (simp add: round_double_def)

lemma round_double_nonneg: "0 \<le> x \<Longrightarrow> 0 \<le> round_double x"
proof (cases "x = 0")
  case True
  then show ?thesis by (simp add: round_double_zero)
next
  case False
  assume "0 \<le> x"
  with False have x: "0 < x" by simp
  have "round_scaled 0 \<le> round_scaled (x * 2 ^ subnormal_exp)"
    using x by (intro round_scaled_mono) simp_all
  then show ?thesis
    using x by (simp add: round_double_pos round_scaled_zero)
qed

lemma round_double_mono:
  assumes "0 \<le> x" and "x \<le> y"
  shows "round_double x \<le> round_double y"
proof (cases "x = 0")
  case True
  with assms show ?thesis by (simp add: round_double_zero round_double_nonneg)
next
  case False
  with assms have x: "0 < x" and y: "0 < y" by simp_all
  have "round_scaled (x * 2 ^ subnormal_exp) \<le> round_scaled (y * 2 ^ subnormal_exp)"
    using x assms(2) by (intro round_scaled_mono mult_right_mono) simp_all
  then show ?thesis
    using x y by (simp add: round_double_pos divide_right_mono)
qed

lemma round_double_nat:
  assumes "n \<le> 2 ^ 53"
  shows "round_double (real n) = real n"
proof (cases "n = 0")
  case True
  then show ?thesis by (simp add: round_double_zero)
next
  case False
  then have n: "0 < n" by simp
  from round_scaled_exact [OF n assms, of subnormal_exp] n show ?thesis
    by (simp add: round_double_pos)
qed

lemma round_double_err:
  assumes "1 / 2 ^ 10 \<le> x" and "x \<le> 2 ^ 53"
  shows "\<bar>round_double x - x\<bar> \<le> x / 2 ^ 53"
proof -
  let ?S = "(2::real) ^ subnormal_exp"
  have x: "0 < x" using assms(1) by (rule less_le_trans [rotated]) simp
  have S: "0 < ?S" by simp
  have "(2::real) ^ 62 \<le> ?S"
    by (rule power_increasing) (simp_all add: subnormal_exp_def)
  then have "2 ^ 52 * 2 ^ 10 \<le> ?S" by simp
  then have "2 ^ 52 \<le> 1 / 2 ^ 10 * ?S" by simp
  also have "\<dots> \<le> x * ?S" using assms(1) by (intro mult_right_mono) simp_all
  finally have "\<bar>round_scaled (x * ?S) - x * ?S\<bar> \<le> x * ?S / 2 ^ 53"
    by (rule round_scaled_err)
  then have "\<bar>round_scaled (x * ?S) - x * ?S\<bar> / ?S \<le> x * ?S / 2 ^ 53 / ?S"
    using S by (intro divide_right_mono) simp_all
  moreover have "round_scaled (x * ?S) / ?S - x = (round_scaled (x * ?S) - x * ?S) / ?S"
    using S by (simp add: diff_divide_distrib)
  then have "\<bar>round_scaled (x * ?S) - x * ?S\<bar> / ?S = \<bar>round_scaled (x * ?S) / ?S - x\<bar>"
    using S by (simp only: abs_divide abs_of_pos)
  moreover have "x * ?S / 2 ^ 53 / ?S = x / 2 ^ 53"
    using S by simp
  ultimately show ?thesis
    using x by (simp only: round_double_pos)
qed

lemma double_rounding_round_double: "double_rounding round_double"
  unfolding double_rounding_def
  using round_double_mono round_double_nat round_double_err by blast

lemma round_even_eqI: "\<bar>r - of_int m\<bar> < 1 / 2 \<Longrightarrow> round_even r = m"
proof -
  assume c: "\<bar>r - of_int m\<bar> < 1 / 2"
  have "\<lfloor>r\<rfloor> = m \<or> \<lfloor>r\<rfloor> = m - 1"
    using c by (auto simp: floor_eq_iff abs_less_iff)
  then show ?thesis
    using c by (auto simp: round_even_def Let_def abs_less_iff)
qed

lemma round_double_eqI:
  fixes x :: real and m :: int and j :: nat
  assumes j: "j \<le> subnormal_exp" and lo: "2 ^ 52 \<le> x * 2 ^ j" and hi: "x * 2 ^ j < 2 ^ 53"
    and close: "\<bar>x * 2 ^ j - of_int m\<bar> < 1 / 2"
  shows "round_double x = of_int m / 2 ^ j"
proof -
  define d where "d = subnormal_exp - j"
  have s: "subnormal_exp = j + d" using j by (simp add: d_def)
  let ?Y = "x * 2 ^ subnormal_exp"
  have Y: "?Y = x * 2 ^ j * 2 ^ d" by (simp add: s power_add)
  have x: "0 < x"
  proof (rule ccontr)
    assume "\<not> 0 < x"
    then have "x * 2 ^ j \<le> 0" by (simp add: mult_le_0_iff)
    with lo show False by simp
  qed
  have "of_int (2 ^ (52 + d)) \<le> ?Y"
    unfolding Y using lo by (simp add: power_add mult_right_mono)
  then have flo: "2 ^ (52 + d) \<le> \<lfloor>?Y\<rfloor>" by (simp only: le_floor_iff)
  have "?Y < of_int (2 ^ (53 + d))"
    unfolding Y using hi by (simp add: power_add mult_strict_right_mono)
  then have fhi: "\<lfloor>?Y\<rfloor> < 2 ^ (53 + d)" by (simp only: floor_less_iff)
  have "bitlen \<lfloor>?Y\<rfloor> \<le> int (53 + d)"
    using fhi by (simp only: bitlen_le_iff_power nat_int) simp
  moreover have "int (53 + d) \<le> bitlen \<lfloor>?Y\<rfloor>"
    using flo by (simp add: bitlen_ge_iff_power nat_add_distrib)
  ultimately have b: "bitlen \<lfloor>?Y\<rfloor> = int (53 + d)" by simp
  have u: "ulp_scaled ?Y = 2 ^ d" by (simp add: ulp_scaled_def b)
  have "?Y / of_int (ulp_scaled ?Y) = ?Y / 2 ^ d" by (simp add: u)
  also have "\<dots> = x * 2 ^ j" by (simp add: Y)
  finally have "?Y / of_int (ulp_scaled ?Y) = x * 2 ^ j" .
  then have "round_even (?Y / of_int (ulp_scaled ?Y)) = m"
    using close by (simp only: round_even_eqI)
  then have "round_scaled ?Y = of_int m * 2 ^ d"
    by (simp add: round_scaled_def u)
  then show ?thesis
    using x by (simp add: round_double_pos) (simp add: s power_add)
qed

text \<open>
  At \<open>canvasSize = 61\<close> the rounded product for the last bound lies below 61, and the floor
  is 60 where the exact product gives 61.
\<close>

lemma double_floor_61:
  "cell_bound round_double 61 28 27 = 58 \<and> cell_bound round_double 61 28 28 = 60 \<and>
   28 * 61 div 28 = (61::nat)"
proof -
  have r: "round_double (real 61 / real 28) = real_of_int 4905706736957147 / 2 ^ 51"
    by (rule round_double_eqI) (simp_all add: subnormal_exp_def)
  have r28: "round_double (real 28 * (real_of_int 4905706736957147 / 2 ^ 51)) =
      real_of_int 8584986789675007 / 2 ^ 47"
    by (rule round_double_eqI) (simp_all add: subnormal_exp_def)
  have r27: "round_double (real 27 * (real_of_int 4905706736957147 / 2 ^ 51)) =
      real_of_int 8278380118615186 / 2 ^ 47"
    by (rule round_double_eqI) (simp_all add: subnormal_exp_def)
  have "cell_bound round_double 61 28 28 = nat \<lfloor>real_of_int 8584986789675007 / 2 ^ 47\<rfloor>"
    by (simp only: cell_bound_def r r28)
  also have "\<dots> = 60" by simp
  finally have b28: "cell_bound round_double 61 28 28 = 60" .
  have "cell_bound round_double 61 28 27 = nat \<lfloor>real_of_int 8278380118615186 / 2 ^ 47\<rfloor>"
    by (simp only: cell_bound_def r r27)
  also have "\<dots> = 58" by simp
  finally have b27: "cell_bound round_double 61 28 27 = 58" .
  from b27 b28 show ?thesis by simp
qed


section \<open>The downsampled image\<close>

lemma cell_px_loop:
  assumes "\<forall>px\<in>set xs. (py * c + px) * 4 < length data"
  shows "foldl (cell_px c data py) (Num a, n) xs =
     (Num (a + sum_list (map (\<lambda>px. red c data px py) xs)), n + length xs)"
  using assms
proof (induction xs arbitrary: a n)
  case Nil
  then show ?case by simp
next
  case (Cons px xs)
  then have "cell_px c data py (Num a, n) px = (Num (a + red c data px py), Suc n)"
    by (simp add: cell_px_def js_index_def red_def)
  with Cons show ?case by (simp add: add.assoc)
qed

lemma cell_row_loop:
  assumes "\<forall>py\<in>set ys. \<forall>px\<in>set [sx..<ex]. (py * c + px) * 4 < length data"
  shows "foldl (cell_row c data sx ex) (Num a, n) ys =
     (Num (a + sum_list (map (\<lambda>py. sum_list (map (\<lambda>px. red c data px py) [sx..<ex])) ys)),
      n + length ys * (ex - sx))"
  using assms
proof (induction ys arbitrary: a n)
  case Nil
  then show ?case by simp
next
  case (Cons py ys)
  then have "cell_row c data sx ex (Num a, n) py =
      (Num (a + sum_list (map (\<lambda>px. red c data px py) [sx..<ex])), n + length [sx..<ex])"
    unfolding cell_row_def by (intro cell_px_loop) simp
  with Cons show ?case by (simp add: add.assoc)
qed

lemma cell_sum_eq:
  assumes "\<forall>py<ey. \<forall>px<ex. (py * c + px) * 4 < length data"
  shows "cell_sum c data sx sy ex ey =
     (Num (\<Sum>py = sy..<ey. \<Sum>px = sx..<ex. red c data px py), (ey - sy) * (ex - sx))"
proof -
  have "\<forall>py\<in>set [sy..<ey]. \<forall>px\<in>set [sx..<ex]. (py * c + px) * 4 < length data"
    using assms by simp
  from cell_row_loop [OF this, of 0 0] show ?thesis
    by (simp add: cell_sum_def interv_sum_list_conv_sum_set_nat cong: sum.cong)
qed

lemma in_buffer:
  assumes "length data = 4 * c * c" and "py < ey" and "ey \<le> c" and "px < ex" and "ex \<le> c"
  shows "(py * c + px) * 4 < length data"
proof -
  from assms have "py * c + px < py * c + c" by simp
  also have "\<dots> = Suc py * c" by simp
  also have "\<dots> \<le> c * c" using assms by (intro mult_le_mono) simp_all
  finally show ?thesis using assms(1) by simp
qed

lemma sum_red_bounds:
  "0 \<le> (\<Sum>py = sy..<ey. \<Sum>px = sx..<ex. red c data px py) \<and>
   (\<Sum>py = sy..<ey. \<Sum>px = sx..<ex. red c data px py) \<le> 255 * real ((ey - sy) * (ex - sx))"
proof -
  have r: "\<And>px py. 0 \<le> red c data px py \<and> red c data px py \<le> 255"
  proof -
    fix px py
    have "unat (data ! ((py * c + px) * 4)) < 2 ^ 8"
      using unsigned_less [of "data ! ((py * c + px) * 4)", where ?'a = nat] by simp
    then have "unat (data ! ((py * c + px) * 4)) \<le> 255" by simp
    then have "real (unat (data ! ((py * c + px) * 4))) \<le> real 255"
      by (rule of_nat_mono)
    moreover have "0 \<le> real (unat (data ! ((py * c + px) * 4)))"
      by (rule of_nat_0_le_iff)
    ultimately show "0 \<le> red c data px py \<and> red c data px py \<le> 255"
      unfolding red_def by simp
  qed
  have inner: "\<And>py. 0 \<le> (\<Sum>px = sx..<ex. red c data px py) \<and>
      (\<Sum>px = sx..<ex. red c data px py) \<le> 255 * real (ex - sx)"
  proof -
    fix py
    have "(\<Sum>px = sx..<ex. red c data px py) \<le> (\<Sum>px = sx..<ex. 255)"
      by (intro sum_mono) (simp add: r)
    then show "0 \<le> (\<Sum>px = sx..<ex. red c data px py) \<and>
      (\<Sum>px = sx..<ex. red c data px py) \<le> 255 * real (ex - sx)"
      by (simp add: sum_nonneg r mult.commute)
  qed
  have "(\<Sum>py = sy..<ey. \<Sum>px = sx..<ex. red c data px py)
      \<le> (\<Sum>py = sy..<ey. 255 * real (ex - sx))"
    by (intro sum_mono) (simp add: inner)
  also have "\<dots> = 255 * real ((ey - sy) * (ex - sx))"
    by simp
  finally show ?thesis
    by (simp add: sum_nonneg inner)
qed

lemma getImageData_px_length: "length (getImageData_px fl c g data y res x) = length res"
  by (simp add: getImageData_px_def f32_set_def)

lemma getImageData_px_nth:
  "getImageData_px fl c g data y res x ! j =
     (if j = y * g + x \<and> j < length res then cell_value fl c g data x y else res ! j)"
  by (auto simp: getImageData_px_def f32_set_def nth_list_update)

lemma getImageData_px_loop_length:
  "length (foldl (getImageData_px fl c g data y) res [0..<n]) = length res"
  by (induction n) (simp_all add: getImageData_px_length)

lemma getImageData_px_loop_nth:
  "foldl (getImageData_px fl c g data y) res [0..<n] ! j =
     (if j < length res \<and> y * g \<le> j \<and> j < y * g + n
      then cell_value fl c g data (j - y * g) y else res ! j)"
proof (induction n)
  case 0
  then show ?case by auto
next
  case (Suc n)
  show ?case
  proof (cases "j = y * g + n")
    case True
    then show ?thesis using Suc
      by (simp add: getImageData_px_nth getImageData_px_loop_length)
  next
    case False
    then have "j < y * g + Suc n \<longleftrightarrow> j < y * g + n" by auto
    with False show ?thesis using Suc
      by (simp add: getImageData_px_nth getImageData_px_loop_length)
  qed
qed

lemma getImageData_row_length: "length (getImageData_row fl c g data res y) = length res"
  by (simp add: getImageData_row_def getImageData_px_loop_length)

lemma getImageData_row_nth:
  "getImageData_row fl c g data res y ! j =
     (if j < length res \<and> y * g \<le> j \<and> j < y * g + g
      then cell_value fl c g data (j - y * g) y else res ! j)"
  by (simp add: getImageData_row_def getImageData_px_loop_nth)

lemma getImageData_row_loop_length:
  "length (foldl (getImageData_row fl c g data) res [0..<m]) = length res"
  by (induction m) (simp_all add: getImageData_row_length)

lemma grid_row_index:
  fixes j m g :: nat
  assumes "0 < g"
  shows "m * g \<le> j \<and> j < m * g + g \<longleftrightarrow> j div g = m"
proof
  assume "m * g \<le> j \<and> j < m * g + g"
  then show "j div g = m"
    by (intro div_nat_eqI) (simp_all add: mult.commute)
next
  assume "j div g = m"
  then have "m * g = g * (j div g)" by (simp add: mult.commute)
  moreover have "g * (j div g) \<le> j" by simp
  moreover have "j < g * (j div g) + g"
    using assms by (metis dividend_less_times_div add.commute)
  ultimately show "m * g \<le> j \<and> j < m * g + g" by (simp add: mult.commute)
qed

lemma getImageData_row_loop_nth:
  assumes "0 < g"
  shows "foldl (getImageData_row fl c g data) res [0..<m] ! j =
     (if j < length res \<and> j < m * g then cell_value fl c g data (j mod g) (j div g) else res ! j)"
proof (induction m)
  case 0
  then show ?case by simp
next
  case (Suc m)
  show ?case
  proof (cases "j div g = m")
    case True
    then have b: "m * g \<le> j" "j < m * g + g" using grid_row_index [OF assms, of m j] by simp_all
    have md: "j - m * g = j mod g" using True
      by (metis add_diff_cancel_left' mult.commute div_mult_mod_eq)
    from b have "\<not> j < m * g" by simp
    with b md True show ?thesis using Suc
      by (simp add: getImageData_row_nth getImageData_row_loop_length)
  next
    case False
    then have nb: "\<not> (m * g \<le> j \<and> j < m * g + g)" using grid_row_index [OF assms, of m j] by simp
    then have "j < Suc m * g \<longleftrightarrow> j < m * g" by auto
    with nb show ?thesis using Suc
      by (auto simp: getImageData_row_nth getImageData_row_loop_length)
  qed
qed

lemma getImageData_length: "length (getImageData fl c g data) = g * g"
  by (simp add: getImageData_def getImageData_row_loop_length)

lemma getImageData_cell:
  assumes "x < g" and "y < g"
  shows "getImageData fl c g data ! (y * g + x) = cell_value fl c g data x y"
proof -
  from assms have g: "0 < g" by simp
  have "y * g + x < y * g + g" using assms by simp
  also have "\<dots> = Suc y * g" by simp
  also have "\<dots> \<le> g * g" using assms by (intro mult_le_mono) simp_all
  finally have lt: "y * g + x < g * g" .
  moreover have "(y * g + x) mod g = x" "(y * g + x) div g = y" using assms by simp_all
  ultimately show ?thesis
    by (simp add: getImageData_def getImageData_row_loop_nth [OF g])
qed

lemma dr_mono: "double_rounding fl \<Longrightarrow> 0 \<le> x \<Longrightarrow> x \<le> y \<Longrightarrow> fl x \<le> fl y"
  by (simp add: double_rounding_def)

lemma dr_nat: "double_rounding fl \<Longrightarrow> n \<le> 2 ^ 53 \<Longrightarrow> fl (real n) = real n"
  by (simp add: double_rounding_def)

lemma dr_err:
  "double_rounding fl \<Longrightarrow> 1 / 2 ^ 10 \<le> x \<Longrightarrow> x \<le> 2 ^ 53 \<Longrightarrow> \<bar>fl x - x\<bar> \<le> x / 2 ^ 53"
  by (simp add: double_rounding_def)

lemma dr_zero: "double_rounding fl \<Longrightarrow> fl 0 = 0"
  using dr_nat [of fl 0] by simp

lemma dr_one: "double_rounding fl \<Longrightarrow> fl 1 = 1"
  using dr_nat [of fl 1] by simp

lemma dr_nonneg: "double_rounding fl \<Longrightarrow> 0 \<le> x \<Longrightarrow> 0 \<le> fl x"
  using dr_mono [of fl 0 x] dr_zero [of fl] by simp

lemma cell_value_alt:
  "cell_value fl c g data x y =
     (case cell_sum c data (cell_bound fl c g x) (cell_bound fl c g y)
             (cell_bound fl c g (Suc x)) (cell_bound fl c g (Suc y)) of
        (sumv, count) \<Rightarrow> js_div (js_div sumv (real count)) 255)"
  by (simp add: cell_value_def cell_bound_def Let_def)

lemma cell_value_eq:
  assumes len: "length data = 4 * c * c"
    and hx: "cell_bound fl c g x < cell_bound fl c g (Suc x)" "cell_bound fl c g (Suc x) \<le> c"
    and hy: "cell_bound fl c g y < cell_bound fl c g (Suc y)" "cell_bound fl c g (Suc y) \<le> c"
  shows "cell_value fl c g data x y =
     Num ((\<Sum>py = cell_bound fl c g y..<cell_bound fl c g (Suc y).
             \<Sum>px = cell_bound fl c g x..<cell_bound fl c g (Suc x). red c data px py)
          / real ((cell_bound fl c g (Suc y) - cell_bound fl c g y) *
                  (cell_bound fl c g (Suc x) - cell_bound fl c g x))
          / 255)"
proof -
  have "\<forall>py<cell_bound fl c g (Suc y). \<forall>px<cell_bound fl c g (Suc x).
      (py * c + px) * 4 < length data"
    using in_buffer [OF len _ hy(2) _ hx(2)] by blast
  then have cs: "cell_sum c data (cell_bound fl c g x) (cell_bound fl c g y)
        (cell_bound fl c g (Suc x)) (cell_bound fl c g (Suc y)) =
     (Num (\<Sum>py = cell_bound fl c g y..<cell_bound fl c g (Suc y).
             \<Sum>px = cell_bound fl c g x..<cell_bound fl c g (Suc x). red c data px py),
      (cell_bound fl c g (Suc y) - cell_bound fl c g y) *
      (cell_bound fl c g (Suc x) - cell_bound fl c g x))"
    by (rule cell_sum_eq)
  have pos: "0 < (cell_bound fl c g (Suc y) - cell_bound fl c g y) *
      (cell_bound fl c g (Suc x) - cell_bound fl c g x)"
    using hx(1) hy(1) by simp
  show ?thesis
    using pos by (simp add: cell_value_alt cs del: of_nat_mult)
qed

lemma cell_size_nonneg: "double_rounding fl \<Longrightarrow> 0 \<le> fl (real c / real g)"
  by (rule dr_nonneg) simp_all

lemma cell_bound_mono:
  assumes "double_rounding fl" and "x \<le> x'"
  shows "cell_bound fl c g x \<le> cell_bound fl c g x'"
proof -
  have "real x * fl (real c / real g) \<le> real x' * fl (real c / real g)"
    using assms by (intro mult_right_mono cell_size_nonneg) simp_all
  moreover have "0 \<le> real x * fl (real c / real g)"
    using cell_size_nonneg [OF assms(1), of c g] by simp
  ultimately have "fl (real x * fl (real c / real g)) \<le> fl (real x' * fl (real c / real g))"
    using dr_mono [OF assms(1), of "real x * fl (real c / real g)" "real x' * fl (real c / real g)"]
    by simp
  then show ?thesis
    unfolding cell_bound_def by (intro nat_mono floor_mono)
qed

lemma cell_bound_exact:
  assumes dr: "double_rounding fl" and c: "c = 28 * m" "c \<le> 2 ^ 53" and x: "x \<le> 28"
  shows "cell_bound fl c 28 x = x * m"
proof -
  have m: "m \<le> 2 ^ 53" using c by simp
  have "real c / real 28 = real m" using c(1) by simp
  then have s: "fl (real c / real 28) = real m" using dr_nat [OF dr m] by simp
  have "x * m \<le> 28 * m" using x by (intro mult_le_mono1)
  also have "\<dots> = c" using c(1) by simp
  also have "\<dots> \<le> 2 ^ 53" by fact
  finally have "x * m \<le> 2 ^ 53" .
  from dr_nat [OF dr this] have "fl (real x * real m) = real (x * m)" by simp
  moreover have "nat \<lfloor>real (x * m)\<rfloor> = x * m" by (simp only: floor_of_nat nat_int)
  ultimately show ?thesis
    unfolding cell_bound_def s by (simp only:)
qed

lemma cell_size_bounds:
  assumes dr: "double_rounding fl" and c: "28 \<le> c" "c < 2 ^ 25"
  shows "1 \<le> fl (real c / 28)"
    and "real c / 28 - 1 / 2 ^ 28 \<le> fl (real c / 28)"
    and "fl (real c / 28) \<le> real c / 28 + 1 / 2 ^ 28"
proof -
  let ?q = "real c / 28"
  have q: "1 \<le> ?q" "?q \<le> 2 ^ 25" using c by simp_all
  from dr_mono [OF dr _ q(1)] show "1 \<le> fl ?q" by (simp add: dr_one [OF dr])
  have "\<bar>fl ?q - ?q\<bar> \<le> ?q / 2 ^ 53"
    using q by (intro dr_err [OF dr]) simp_all
  moreover have "?q / 2 ^ 53 \<le> 2 ^ 25 / 2 ^ 53"
    using q(2) by (intro divide_right_mono) simp_all
  ultimately have "\<bar>fl ?q - ?q\<bar> \<le> 1 / 2 ^ 28" by simp
  then show "?q - 1 / 2 ^ 28 \<le> fl ?q" and "fl ?q \<le> ?q + 1 / 2 ^ 28"
    by linarith+
qed

lemma product_rounding:
  assumes dr: "double_rounding fl" and p: "1 \<le> p" "p \<le> 2 ^ 26"
  shows "p - 1 / 2 ^ 27 \<le> fl p" and "fl p \<le> p + 1 / 2 ^ 27"
proof -
  have "\<bar>fl p - p\<bar> \<le> p / 2 ^ 53"
    using p by (intro dr_err [OF dr]) simp_all
  moreover have "p / 2 ^ 53 \<le> 2 ^ 26 / 2 ^ 53"
    using p(2) by (intro divide_right_mono) simp_all
  ultimately have "\<bar>fl p - p\<bar> \<le> 1 / 2 ^ 27" by simp
  then show "p - 1 / 2 ^ 27 \<le> fl p" and "fl p \<le> p + 1 / 2 ^ 27"
    by linarith+
qed

lemma cell_bound_top:
  assumes dr: "double_rounding fl" and c: "28 \<le> c" "c < 2 ^ 25"
  shows "cell_bound fl c 28 28 \<le> c"
proof -
  let ?s = "fl (real c / 28)"
  note s = cell_size_bounds [OF dr c]
  have c': "real c \<le> 2 ^ 25" using c(2) by simp
  have p: "1 \<le> 28 * ?s" "28 * ?s \<le> 2 ^ 26" using s(1,3) c' by simp_all
  from product_rounding(2) [OF dr p] s(3)
  have "fl (28 * ?s) < real c + 1" by simp
  then have "\<lfloor>fl (28 * ?s)\<rfloor> \<le> int c"
    by (simp add: floor_le_iff)
  then show ?thesis
    unfolding cell_bound_def by simp
qed

lemma cell_bound_step:
  assumes dr: "double_rounding fl" and c: "28 \<le> c" "c < 2 ^ 25" and x: "x < 28"
  shows "cell_bound fl c 28 x < cell_bound fl c 28 (Suc x)"
proof (cases "c = 28")
  case True
  then have "c = 28 * 1" "c \<le> 2 ^ 53" by simp_all
  from cell_bound_exact [OF dr this, of x] cell_bound_exact [OF dr this, of "Suc x"] x
  show ?thesis by simp
next
  case False
  with c have c29: "29 \<le> real c" by simp
  let ?s = "fl (real c / 28)"
  note s = cell_size_bounds [OF dr c]
  have c': "real c \<le> 2 ^ 25" using c(2) by simp
  have s_lo: "29 / 28 - 1 / 2 ^ 28 \<le> ?s" using s(2) c29 by simp
  have s_hi: "28 * ?s \<le> 2 ^ 26" using s(3) c' by simp
  let ?A = "real x * ?s" and ?B = "real (Suc x) * ?s"
  have AB: "?B = ?A + ?s" by (simp add: algebra_simps)
  have B_hi: "?B \<le> 28 * ?s"
    using x s(1) by (intro mult_right_mono) simp_all
  have B_lo: "1 \<le> ?B"
    using s(1) mult_mono [of 1 "real (Suc x)" 1 ?s] by simp
  have flB: "?B - 1 / 2 ^ 27 \<le> fl ?B"
    using B_lo B_hi s_hi by (intro product_rounding(1) [OF dr]) simp_all
  have flA: "fl ?A \<le> ?A + 1 / 2 ^ 27" and A0: "0 \<le> fl ?A"
  proof -
    have nn: "0 \<le> ?A" using s(1) by simp
    show "0 \<le> fl ?A" using dr nn by (rule dr_nonneg)
    show "fl ?A \<le> ?A + 1 / 2 ^ 27"
    proof (cases "x = 0")
      case True
      then show ?thesis by (simp add: dr_zero [OF dr])
    next
      case False
      then have "1 \<le> real x" by simp
      then have "1 \<le> ?A" using s(1) mult_mono [of 1 "real x" 1 ?s] by simp
      moreover have "?A \<le> 2 ^ 26" using AB B_hi s_hi s(1) by linarith
      ultimately show ?thesis by (intro product_rounding(2) [OF dr]) simp_all
    qed
  qed
  have "fl ?A + 1 \<le> fl ?B"
    using flA flB AB s_lo by simp
  then have "\<lfloor>fl ?A + 1\<rfloor> \<le> \<lfloor>fl ?B\<rfloor>" by (rule floor_mono)
  then have "\<lfloor>fl ?A\<rfloor> < \<lfloor>fl ?B\<rfloor>" by simp
  moreover have "0 \<le> \<lfloor>fl ?A\<rfloor>" using A0 by simp
  ultimately have "nat \<lfloor>fl ?A\<rfloor> < nat \<lfloor>fl ?B\<rfloor>"
    by (simp only: nat_less_eq_zless)
  moreover have "cell_bound fl c 28 z = nat \<lfloor>fl (real z * ?s)\<rfloor>" for z
    by (simp add: cell_bound_def)
  ultimately show ?thesis by simp
qed

lemma cell_bound_le:
  assumes "double_rounding fl" and "28 \<le> c" and "c < 2 ^ 25" and "x \<le> 28"
  shows "cell_bound fl c 28 x \<le> c"
  using cell_bound_mono [OF assms(1,4), of c 28] cell_bound_top [OF assms(1,2,3)] by simp

lemma small_canvas_cell:
  assumes dr: "double_rounding fl"
  shows "getImageData fl 1 28 data ! (0 * 28 + 0) = NaN"
proof -
  let ?s = "fl (real 1 / real 28)"
  have "\<bar>?s - 1 / 28\<bar> \<le> (1 / 28) / 2 ^ 53"
    using dr_err [OF dr, of "1 / 28"] by simp
  moreover have "(1 / 28) / 2 ^ 53 \<le> (1 / 56 :: real)" by simp
  ultimately have "\<bar>?s - 1 / 28\<bar> \<le> 1 / 56" by linarith
  then have "1 / 1024 \<le> ?s" "?s \<le> 1 / 2" by linarith+
  then have s: "1 / 2 ^ 10 \<le> ?s" "?s \<le> 1 / 2" by simp_all
  then have "\<bar>fl ?s - ?s\<bar> \<le> ?s / 2 ^ 53"
    by (intro dr_err [OF dr]) simp_all
  moreover have "?s / 2 ^ 53 \<le> (1 / 2) / 2 ^ 53"
    using s(2) by (intro divide_right_mono) simp_all
  moreover have "(1 / 2) / 2 ^ 53 \<le> (1 / 4 :: real)" by simp
  ultimately have "fl ?s < 1" using s(2) by linarith
  moreover have "0 \<le> fl ?s" using s(1) by (intro dr_nonneg [OF dr]) simp
  ultimately have "\<lfloor>fl ?s\<rfloor> = 0" by (simp add: floor_eq_iff)
  then have b1: "cell_bound fl (Suc 0) 28 (Suc 0) = 0"
    by (simp add: cell_bound_def)
  have b0: "cell_bound fl (Suc 0) 28 0 = 0"
    by (simp add: cell_bound_def dr_zero [OF dr])
  have "cell_value fl 1 28 data 0 0 = NaN"
    by (simp add: cell_value_alt b0 b1 cell_sum_def)
  moreover have "getImageData fl 1 28 data ! (0 * 28 + 0) = cell_value fl 1 28 data 0 0"
    by (rule getImageData_cell) simp_all
  ultimately show ?thesis by simp
qed

text \<open>
  C9, as the code has it: for the rounding to doubles (any \<open>fl\<close> with its properties, of
  which \<open>round_double\<close> is one), for a square canvas of side \<open>canvasSize\<close> from 28 (so that
  every cell holds a pixel) to below \<open>2 ^ 25\<close>, and its pixel buffer of
  \<open>4 * canvasSize * canvasSize\<close> bytes, the result of \<open>getImageData\<close> on the 28 by 28 grid has
  length 784 and every element is a number in \<open>[0, 1]\<close>. Cell \<open>x\<close> spans the pixels from \<open>Math.floor(x * cellSize)\<close> to
  \<open>Math.floor((x + 1) * cellSize)\<close> as doubles give them, at least one pixel and inside the
  canvas, and the element of cell \<open>(x, y)\<close> is the sum of the red bytes of its pixels divided
  by their count and by 255. When \<open>canvasSize\<close> is \<open>28 * m\<close>, as the shipped 280 is, cell \<open>x\<close>
  spans \<open>x * m\<close> to \<open>(x + 1) * m\<close>.
\<close>

theorem getImageData_normalized:
  assumes "double_rounding fl" and "28 \<le> canvasSize" and "canvasSize < 2 ^ 25"
    and "length data = 4 * canvasSize * canvasSize"
  shows "length (getImageData fl canvasSize 28 data) = 784 \<and>
         (\<forall>j<784. \<exists>r. getImageData fl canvasSize 28 data ! j = Num r \<and> 0 \<le> r \<and> r \<le> 1) \<and>
         (\<forall>x<28. \<forall>y<28.
            cell_bound fl canvasSize 28 x < cell_bound fl canvasSize 28 (x + 1) \<and>
            cell_bound fl canvasSize 28 (x + 1) \<le> canvasSize \<and>
            getImageData fl canvasSize 28 data ! (y * 28 + x) =
              Num ((\<Sum>py = cell_bound fl canvasSize 28 y..<cell_bound fl canvasSize 28 (y + 1).
                      \<Sum>px = cell_bound fl canvasSize 28 x..<cell_bound fl canvasSize 28 (x + 1).
                        real (unat (data ! ((py * canvasSize + px) * 4))))
                   / real ((cell_bound fl canvasSize 28 (y + 1) - cell_bound fl canvasSize 28 y) *
                           (cell_bound fl canvasSize 28 (x + 1) - cell_bound fl canvasSize 28 x))
                   / 255)) \<and>
         (\<forall>m. canvasSize = 28 * m \<longrightarrow>
            (\<forall>x\<le>28. cell_bound fl canvasSize 28 x = x * m) \<and>
            (\<forall>x<28. \<forall>y<28. getImageData fl canvasSize 28 data ! (y * 28 + x) =
               Num ((\<Sum>py = y * m..<(y + 1) * m. \<Sum>px = x * m..<(x + 1) * m.
                       real (unat (data ! ((py * canvasSize + px) * 4))))
                    / real (m * m) / 255)))"
proof -
  let ?c = canvasSize
  let ?b = "cell_bound fl ?c 28"
  let ?S = "\<lambda>x y. \<Sum>py = ?b y..<?b (Suc y). \<Sum>px = ?b x..<?b (Suc x). red ?c data px py"
  let ?n = "\<lambda>x y. (?b (Suc y) - ?b y) * (?b (Suc x) - ?b x)"
  note dr = assms(1) and c = assms(2,3) and len = assms(4)
  have step: "?b x < ?b (Suc x)" if "x < 28" for x
    using dr c that by (rule cell_bound_step)
  have top: "?b (Suc x) \<le> ?c" if "x < 28" for x
    using that by (intro cell_bound_le [OF dr c]) simp
  have cell: "getImageData fl ?c 28 data ! (y * 28 + x) = Num (?S x y / real (?n x y) / 255)"
    if "x < 28" "y < 28" for x y
    using that
    by (simp only: getImageData_cell cell_value_eq [OF len step top step top])
  have range: "0 \<le> ?S x y / real (?n x y) / 255 \<and> ?S x y / real (?n x y) / 255 \<le> 1"
    if "x < 28" "y < 28" for x y
  proof -
    have pos: "0 < real (?n x y)"
      using step [OF that(1)] step [OF that(2)] by simp
    from sum_red_bounds [of ?c data "?b x" "?b (Suc x)" "?b y" "?b (Suc y)"]
    have "0 \<le> ?S x y" and "?S x y \<le> 255 * real (?n x y)" by simp_all
    with pos show ?thesis
      by (simp add: divide_le_eq mult.commute)
  qed
  have elems: "\<forall>j<784. \<exists>r. getImageData fl ?c 28 data ! j = Num r \<and> 0 \<le> r \<and> r \<le> 1"
  proof (intro allI impI)
    fix j :: nat assume j: "j < 784"
    then have xy: "j mod 28 < 28" "j div 28 < 28" by simp_all
    from cell [OF xy] have "getImageData fl ?c 28 data ! j =
        Num (?S (j mod 28) (j div 28) / real (?n (j mod 28) (j div 28)) / 255)"
      by simp
    with range [OF xy]
    show "\<exists>r. getImageData fl ?c 28 data ! j = Num r \<and> 0 \<le> r \<and> r \<le> 1" by blast
  qed
  have cells: "\<forall>x<28. \<forall>y<28. ?b x < ?b (x + 1) \<and> ?b (x + 1) \<le> ?c \<and>
      getImageData fl ?c 28 data ! (y * 28 + x) =
        Num ((\<Sum>py = ?b y..<?b (y + 1). \<Sum>px = ?b x..<?b (x + 1).
                real (unat (data ! ((py * ?c + px) * 4))))
             / real ((?b (y + 1) - ?b y) * (?b (x + 1) - ?b x)) / 255)"
    using cell step top by (simp add: red_def)
  have exact: "(\<forall>x\<le>28. ?b x = x * m) \<and>
      (\<forall>x<28. \<forall>y<28. getImageData fl ?c 28 data ! (y * 28 + x) =
         Num ((\<Sum>py = y * m..<(y + 1) * m. \<Sum>px = x * m..<(x + 1) * m.
                 real (unat (data ! ((py * ?c + px) * 4))))
              / real (m * m) / 255))"
    if m: "?c = 28 * m" for m
  proof -
    have c53: "?c \<le> 2 ^ 53" using c(2) by simp
    have b: "?b x = x * m" if "x \<le> 28" for x
      using dr m c53 that by (rule cell_bound_exact)
    have w: "(x + 1) * m - x * m = m" for x by simp
    have "getImageData fl ?c 28 data ! (y * 28 + x) =
         Num ((\<Sum>py = y * m..<(y + 1) * m. \<Sum>px = x * m..<(x + 1) * m.
                 real (unat (data ! ((py * ?c + px) * 4))))
              / real (m * m) / 255)" if "x < 28" "y < 28" for x y
    proof -
      have "?b x = x * m" "?b (x + 1) = (x + 1) * m" "?b y = y * m" "?b (y + 1) = (y + 1) * m"
        using that by (simp_all add: b)
      with cells that w show ?thesis by simp
    qed
    with b show ?thesis by blast
  qed
  from elems cells exact show ?thesis
    by (simp add: getImageData_length)
qed

text \<open>
  Two instances, with \<open>round_double\<close>: the shipped 280 by 280 canvas, all white, gives 1; a
  61 by 61 canvas, black but for the pixel \<open>(58, 58)\<close>, gives 1/4 in the last cell, which
  spans the pixels 58 and 59 since the double product \<open>28 * (61 / 28)\<close> lies just below 61.
\<close>

theorem getImageData_normalized_witness:
  "double_rounding round_double \<and> (28::nat) \<le> 280 \<and> (280::nat) < 2 ^ 25 \<and>
   length (replicate 313600 (255 :: 8 word)) = 4 * 280 * 280 \<and>
   length (getImageData round_double 280 28 (replicate 313600 255)) = 784 \<and>
   cell_bound round_double 280 28 3 = 30 \<and>
   getImageData round_double 280 28 (replicate 313600 255) ! (2 * 28 + 3) = Num 1 \<and>
   (28::nat) \<le> 61 \<and> (61::nat) < 2 ^ 25 \<and>
   length ((replicate 14884 (0 :: 8 word))[14384 := 255]) = 4 * 61 * 61 \<and>
   cell_bound round_double 61 28 27 = 58 \<and> cell_bound round_double 61 28 28 = 60 \<and>
   getImageData round_double 61 28 ((replicate 14884 0)[14384 := 255]) ! (27 * 28 + 27) = Num (1 / 4)"
proof -
  note dr = double_rounding_round_double
  have h: "(28::nat) \<le> 280" "(280::nat) < 2 ^ 25"
    "length (replicate 313600 (255 :: 8 word)) = 4 * 280 * 280"
    by simp_all
  note th = getImageData_normalized [OF dr h]
  from th have len: "length (getImageData round_double 280 28 (replicate 313600 255)) = 784"
    by blast
  from th have ex: "\<forall>m. (280::nat) = 28 * m \<longrightarrow>
      (\<forall>x\<le>28. cell_bound round_double 280 28 x = x * m) \<and>
      (\<forall>x<28. \<forall>y<28. getImageData round_double 280 28 (replicate 313600 255) ! (y * 28 + x) =
         Num ((\<Sum>py = y * m..<(y + 1) * m. \<Sum>px = x * m..<(x + 1) * m.
                 real (unat (replicate 313600 (255 :: 8 word) ! ((py * 280 + px) * 4))))
              / real (m * m) / 255))"
    by blast
  have m: "(280::nat) = 28 * 10" by simp
  from ex [rule_format, OF m]
  have bs: "\<forall>x\<le>28. cell_bound round_double 280 28 x = x * 10"
    and cells: "\<forall>x<28. \<forall>y<28.
      getImageData round_double 280 28 (replicate 313600 255) ! (y * 28 + x) = Num 1"
    by simp_all
  from bs [rule_format, of 3] have b: "cell_bound round_double 280 28 3 = 30" by simp
  from cells [rule_format, of 3 2]
  have white: "getImageData round_double 280 28 (replicate 313600 255) ! (2 * 28 + 3) = Num 1"
    by simp
  let ?d = "(replicate 14884 (0 :: 8 word))[14384 := 255]"
  have g: "(28::nat) \<le> 61" "(61::nat) < 2 ^ 25" "length ?d = 4 * 61 * 61"
    by simp_all
  note th61 = getImageData_normalized [OF dr g]
  have b27: "cell_bound round_double 61 28 27 = 58" and b28: "cell_bound round_double 61 28 28 = 60"
    using double_floor_61 by simp_all
  from th61 have "\<forall>x<28. \<forall>y<28.
      getImageData round_double 61 28 ?d ! (y * 28 + x) =
        Num ((\<Sum>py = cell_bound round_double 61 28 y..<cell_bound round_double 61 28 (y + 1).
                \<Sum>px = cell_bound round_double 61 28 x..<cell_bound round_double 61 28 (x + 1).
                  real (unat (?d ! ((py * 61 + px) * 4))))
             / real ((cell_bound round_double 61 28 (y + 1) - cell_bound round_double 61 28 y) *
                     (cell_bound round_double 61 28 (x + 1) - cell_bound round_double 61 28 x))
             / 255)"
    by blast
  from this [rule_format, of 27 27]
  have "getImageData round_double 61 28 ?d ! (27 * 28 + 27) =
      Num ((\<Sum>py = 58..<60. \<Sum>px = 58..<60. real (unat (?d ! ((py * 61 + px) * 4)))) / real 4 / 255)"
    by (simp add: b27 b28)
  moreover have "{58..<60::nat} = {58, 59}" by auto
  ultimately have one: "getImageData round_double 61 28 ?d ! (27 * 28 + 27) = Num (1 / 4)"
    by simp
  from dr h len b white g b27 b28 one show ?thesis by simp
qed

text \<open>
  C9 as stated fails: a 1 by 1 canvas has positive width and height, but its cell
  \<open>(0, 0)\<close> holds no pixel, and the element is \<open>0 / 0\<close>, which is \<open>NaN\<close> and not in \<open>[0, 1]\<close>:
  so it is with the rounding to doubles, and with any rounding that has its properties.
\<close>

theorem getImageData_small_canvas_counterexample:
  "length [255, 255, 255, 255 :: 8 word] = 4 * 1 * 1 \<and>
   getImageData round_double 1 28 [255, 255, 255, 255] ! (0 * 28 + 0) = NaN \<and>
   \<not> (\<exists>fl. double_rounding fl \<and> getImageData fl 1 28 [255, 255, 255, 255] ! (0 * 28 + 0) \<noteq> NaN)"
  using small_canvas_cell [OF double_rounding_round_double, of "[255, 255, 255, 255]"]
    small_canvas_cell [of _ "[255, 255, 255, 255]"]
  by auto

end
